theory Spec2Isabelle
  imports Main "HOL-Library.Multiset" "HOL-Library.Monad_Syntax"
begin

section \<open>Strings as Python uses them\<close>

text \<open>
  A string is a list of characters with the code points 0 to 255, Python's \<open>str\<close>
  restricted to Latin-1. \<open>str.lower\<close>, \<open>str.isdigit\<close>, \<open>int\<close> and \<open>str.strip\<close>
  follow Python on all of these characters. \<open>str.title\<close> is applied to the names of
  outcomes only, and is modelled on the letters \<open>A..Z\<close> and \<open>a..z\<close>.
\<close>

definition is_upper :: "char \<Rightarrow> bool" where
  "is_upper c = (65 \<le> (of_char c :: nat) \<and> (of_char c :: nat) \<le> 90)"

definition is_lower :: "char \<Rightarrow> bool" where
  "is_lower c = (97 \<le> (of_char c :: nat) \<and> (of_char c :: nat) \<le> 122)"

definition is_digit :: "char \<Rightarrow> bool" where
  "is_digit c = (48 \<le> (of_char c :: nat) \<and> (of_char c :: nat) \<le> 57)"

definition to_upper :: "char \<Rightarrow> char" where
  "to_upper c = (if is_lower c then char_of ((of_char c :: nat) - 32) else c)"

definition to_lower :: "char \<Rightarrow> char" where
  "to_lower c = (if is_upper c then char_of ((of_char c :: nat) + 32) else c)"

text \<open>
  \<open>s.lower()\<close>: the capital letters are \<open>A..Z\<close> and the code points 192 to 222
  without the multiplication sign 215; each has its small letter 32 further on.
\<close>

definition lower_char :: "char \<Rightarrow> char" where
  "lower_char c =
     (if (65 \<le> (of_char c :: nat) \<and> (of_char c :: nat) \<le> 90)
         \<or> (192 \<le> (of_char c :: nat) \<and> (of_char c :: nat) \<le> 222 \<and> (of_char c :: nat) \<noteq> 215)
      then char_of ((of_char c :: nat) + 32) else c)"

definition lower :: "string \<Rightarrow> string" where
  "lower s = map lower_char s"

text \<open>
  \<open>s.title()\<close>: a letter that follows a letter is lower-cased, any other letter is
  upper-cased, every other character is kept. The flag says whether the previous
  character was a letter.
\<close>

fun title_from :: "bool \<Rightarrow> string \<Rightarrow> string" where
  "title_from prev [] = []"
| "title_from prev (c # cs) =
     (if is_upper c \<or> is_lower c
      then (if prev then to_lower c else to_upper c) # title_from True cs
      else c # title_from False cs)"

definition title :: "string \<Rightarrow> string" where
  "title s = title_from False s"

section \<open>Outcome vocabulary\<close>

text \<open>
  Modelled from the spec: the four constants \<open>PASSED\<close>, \<open>FAILED\<close>, \<open>SKIPPED\<close> and
  \<open>ABSENT\<close> are imported by \<open>matrix.py\<close> from the parser module, which is not part of
  the sources at hand. The spec names the elementary outcomes Passed, Failed, Skipped and
  Absent and says their labels are these words title-cased; \<open>matrix.py\<close> itself writes
  the absent class as the literal \<open>'absent'\<close> in the header row.
\<close>

definition PASSED :: string where "PASSED = ''passed''"
definition FAILED :: string where "FAILED = ''failed''"
definition SKIPPED :: string where "SKIPPED = ''skipped''"
definition ABSENT :: string where "ABSENT = ''absent''"

text \<open>The derived outcomes, as \<open>matrix.py\<close> declares them.\<close>

definition UNTESTED :: string where "UNTESTED = ''untested''"
definition PARTIAL_PASS :: string where "PARTIAL_PASS = ''partial pass''"
definition PARTIAL_FAIL :: string where "PARTIAL_FAIL = ''partial failure''"
definition TOTAL_FAIL :: string where "TOTAL_FAIL = ''total failure''"

text \<open>
  The three classes of the module. \<open>short_outcome\<close> and \<open>combined_result\<close> are methods;
  \<open>HtmlReportMatrix\<close> overrides \<open>short_outcome\<close>, and \<open>combined_result\<close> calls it
  through \<open>self\<close>, so both take the class of the receiver.
\<close>

datatype variant = ReportMatrix | HtmlReportMatrix | TextReportMatrix

text \<open>\<open>ReportMatrix.short_outcome\<close>\<close>

definition short_outcome_base :: "string \<Rightarrow> string" where
  "short_outcome_base outcome =
     (if outcome = PASSED then ''/''
      else if outcome = SKIPPED then ''s''
      else if outcome = FAILED then ''f''
      else if outcome = TOTAL_FAIL then ''F''
      else if outcome = PARTIAL_PASS then ''%''
      else if outcome = PARTIAL_FAIL then ''X''
      else if outcome = UNTESTED then ''U''
      else ''?'')"

text \<open>\<open>short_outcome\<close> as dispatched on the receiver's class.\<close>

fun short_outcome :: "variant \<Rightarrow> string \<Rightarrow> string" where
  "short_outcome HtmlReportMatrix outcome =
     (if outcome = PASSED then ''ok'' else short_outcome_base outcome)"
| "short_outcome ReportMatrix outcome = short_outcome_base outcome"
| "short_outcome TextReportMatrix outcome = short_outcome_base outcome"

section \<open>Outcome combinator\<close>

text \<open>\<open>ReportMatrix.combined_result\<close>; \<open>x in results\<close> on a list is membership.\<close>

definition combined_result :: "variant \<Rightarrow> string list \<Rightarrow> string \<times> string" where
  "combined_result self results =
     (if PASSED \<in> set results then
        (if FAILED \<in> set results
         then (short_outcome self PARTIAL_FAIL, title PARTIAL_FAIL)
         else if SKIPPED \<in> set results
         then (short_outcome self PARTIAL_PASS, title PARTIAL_PASS)
         else (short_outcome self PASSED, title PASSED))
      else if FAILED \<in> set results
      then (short_outcome self TOTAL_FAIL, title TOTAL_FAIL)
      else if SKIPPED \<in> set results
      then (short_outcome self UNTESTED, title UNTESTED)
      else ('' '', ''''))"

section \<open>Dictionaries\<close>

text \<open>
  A Python \<open>dict\<close> keeps its keys in insertion order, and the renderers iterate in that
  order, so a dictionary is an association list. Storing under a key that is present
  replaces the value in place; storing under a new key appends the entry.
\<close>

type_synonym ('k, 'v) dict = "('k \<times> 'v) list"

text \<open>\<open>d.keys()\<close>\<close>

definition keys :: "('k, 'v) dict \<Rightarrow> 'k list" where
  "keys d = map fst d"

text \<open>\<open>k in d\<close>\<close>

definition dict_in :: "'k \<Rightarrow> ('k, 'v) dict \<Rightarrow> bool" where
  "dict_in k d = (k \<in> set (keys d))"

text \<open>\<open>d[k]\<close> as an expression; \<open>None\<close> is the \<open>KeyError\<close>.\<close>

definition dict_get :: "'k \<Rightarrow> ('k, 'v) dict \<Rightarrow> 'v option" where
  "dict_get k d = map_of d k"

text \<open>\<open>d.get(k, default)\<close>\<close>

definition dict_get_default :: "'k \<Rightarrow> 'v \<Rightarrow> ('k, 'v) dict \<Rightarrow> 'v" where
  "dict_get_default k dflt d = (case map_of d k of None \<Rightarrow> dflt | Some v \<Rightarrow> v)"

text \<open>\<open>d[k] = v\<close>\<close>

primrec dict_set :: "'k \<Rightarrow> 'v \<Rightarrow> ('k, 'v) dict \<Rightarrow> ('k, 'v) dict" where
  "dict_set k v [] = [(k, v)]"
| "dict_set k v (e # d) = (if fst e = k then (k, v) # d else e # dict_set k v d)"

text \<open>
  A \<open>for\<close> loop whose body may raise: the body takes the loop variable and the state,
  and the first \<open>None\<close> ends the loop.
\<close>

primrec for_each :: "('a \<Rightarrow> 's \<Rightarrow> 's option) \<Rightarrow> 'a list \<Rightarrow> 's \<Rightarrow> 's option" where
  "for_each body [] s = Some s"
| "for_each body (x # xs) s =
     (case body x s of None \<Rightarrow> None | Some s' \<Rightarrow> for_each body xs s')"

section \<open>More of Python's strings\<close>

text \<open>
  \<open>s.strip()\<close>: white space is removed at both ends. The white space characters are
  the code points 9 to 13, 28 to 32, 133 and 160.
\<close>

definition is_space :: "char \<Rightarrow> bool" where
  "is_space c = ((9 \<le> (of_char c :: nat) \<and> (of_char c :: nat) \<le> 13)
     \<or> (28 \<le> (of_char c :: nat) \<and> (of_char c :: nat) \<le> 32)
     \<or> (of_char c :: nat) = 133 \<or> (of_char c :: nat) = 160)"

definition strip :: "string \<Rightarrow> string" where
  "strip s = rev (dropWhile is_space (rev (dropWhile is_space s)))"

text \<open>\<open>os.path.basename(p)\<close>: what follows the last slash.\<close>

definition os_path_basename :: "string \<Rightarrow> string" where
  "os_path_basename p = rev (takeWhile (\<lambda>c. c \<noteq> CHR ''/'') (rev p))"

text \<open>\<open>str(i)\<close> for an integer: decimal digits, with a minus sign when negative.\<close>

definition digit_char :: "nat \<Rightarrow> char" where
  "digit_char d = char_of (48 + d)"

fun str_nat :: "nat \<Rightarrow> string" where
  "str_nat n = (if n < 10 then [digit_char n] else str_nat (n div 10) @ [digit_char (n mod 10)])"

definition str_int :: "int \<Rightarrow> string" where
  "str_int i = (if i < 0 then CHR ''-'' # str_nat (nat (- i)) else str_nat (nat i))"

text \<open>The number that a string of the digits \<open>0..9\<close> writes.\<close>

definition digit_value :: "char \<Rightarrow> nat" where
  "digit_value c = (of_char c :: nat) - 48"

definition int_of_digits :: "string \<Rightarrow> nat" where
  "int_of_digits s = foldl (\<lambda>a c. 10 * a + digit_value c) 0 s"

section \<open>Parsed reports\<close>

text \<open>
  The parser's objects, with the attributes and methods \<open>matrix.py\<close> reads: a property
  has a \<open>value\<close>; a case has \<open>basename()\<close>, \<open>outcome()\<close>, \<open>anchor()\<close> and
  \<open>properties\<close>; a class has \<open>cases\<close>; a suite has the dictionary \<open>classes\<close>; a
  report has \<open>suites\<close>.
\<close>

record property =
  prop_name :: string
  prop_value :: string

record testcase =
  case_basename :: string
  case_outcome :: string
  case_anchor :: string
  case_properties :: "property list"

record testclass =
  class_cases :: "testcase list"

record suite =
  suite_classes :: "(string, testclass) dict"

record junit =
  junit_suites :: "suite list"

section \<open>The matrix\<close>

text \<open>
  The attributes of \<open>ReportMatrix\<close>. \<open>stdout\<close> holds the lines that \<open>print\<close> has
  written.
\<close>

record matrix =
  reports :: "(string, junit) dict"
  cases :: "(string, (string, (string, testcase) dict) dict) dict"
  classes :: "(string, (string, testclass) dict) dict"
  casenames :: "(string, string list) dict"
  result_stats :: "(string, int) dict"
  properties :: "(string, testcase list) dict"
  stdout :: "string list"

text \<open>
  \<open>ReportMatrix.__init__(prop_prefix, prop_count)\<close>. The guard
  \<open>if prop_prefix and prop_count\<close> is Python truth: \<open>None\<close> and the empty string are
  false, and so is \<open>0\<close>. \<open>range(1, prop_count + 1)\<close> is \<open>[1..prop_count]\<close>, empty for
  a negative count.
\<close>

definition empty_matrix :: matrix where
  "empty_matrix = \<lparr>reports = [], cases = [], classes = [], casenames = [],
     result_stats = [], properties = [], stdout = []\<rparr>"

definition init :: "string option \<Rightarrow> int \<Rightarrow> matrix" where
  "init prop_prefix prop_count =
     (case prop_prefix of
        None \<Rightarrow> empty_matrix
      | Some prefix \<Rightarrow>
          if prefix \<noteq> [] \<and> prop_count \<noteq> 0
          then fold (\<lambda>i m. m\<lparr>properties := dict_set (prefix @ str_int i) [] (properties m)\<rparr>)
                 [1..prop_count] empty_matrix
          else empty_matrix)"

subsection \<open>\<open>ReportMatrix.add_report\<close>\<close>

text \<open>\<open>self.cases[c][b][axis]\<close> and \<open>self.classes[c][axis]\<close>, \<open>None\<close> when a key is missing.\<close>

definition cases_at :: "matrix \<Rightarrow> string \<Rightarrow> string \<Rightarrow> string \<Rightarrow> testcase option" where
  "cases_at m c b axis = do {
     by_case \<leftarrow> dict_get c (cases m);
     by_axis \<leftarrow> dict_get b by_case;
     dict_get axis by_axis
   }"

definition classes_at :: "matrix \<Rightarrow> string \<Rightarrow> string \<Rightarrow> testclass option" where
  "classes_at m c axis = do {
     by_file \<leftarrow> dict_get c (classes m);
     dict_get axis by_file
   }"

text \<open>
  The statement \<open>self.cases[testclass][basename][axis] = testcase\<close> of lines 93 and
  108: both outer subscripts are reads, and \<open>None\<close> is their \<open>KeyError\<close>.
\<close>

definition store_case :: "string \<Rightarrow> string \<Rightarrow> string \<Rightarrow> testcase \<Rightarrow> matrix \<Rightarrow> matrix option" where
  "store_case testclass basename axis tc m = do {
     by_case \<leftarrow> dict_get testclass (cases m);
     by_axis \<leftarrow> dict_get basename by_case;
     Some (m\<lparr>cases := dict_set testclass
              (dict_set basename (dict_set axis tc by_axis) by_case) (cases m)\<rparr>)
   }"

text \<open>
  The innermost loop body, lines 100 to 109: one declared property of one case. An
  unrecognized value prints the warning and goes on to the next property.
\<close>

definition warning :: "string \<Rightarrow> string" where
  "warning v = ''WARNING: Ignoring unrecognized property: '' @ v"

definition add_prop :: "string \<Rightarrow> string \<Rightarrow> testcase \<Rightarrow> property \<Rightarrow> matrix \<Rightarrow> matrix option" where
  "add_prop testclass basename tc prop m =
     (if \<not> dict_in (prop_value prop) (properties m)
      then Some (m\<lparr>stdout := stdout m @ [warning (prop_value prop)]\<rparr>)
      else do {
        tests \<leftarrow> dict_get (prop_value prop) (properties m);
        store_case testclass basename (prop_value prop) tc
          (m\<lparr>properties := dict_set (prop_value prop) (tests @ [tc]) (properties m)\<rparr>)
      })"

text \<open>
  Lines 85 and 86. The test looks the name up in \<open>self.casenames\<close>, the dictionary
  keyed by class name, and the append goes to the list of the class.
\<close>

definition note_casename :: "string \<Rightarrow> string \<Rightarrow> matrix \<Rightarrow> matrix option" where
  "note_casename testclass basename m =
     (if \<not> dict_in basename (casenames m)
      then do {
        names \<leftarrow> dict_get testclass (casenames m);
        Some (m\<lparr>casenames := dict_set testclass (names @ [basename]) (casenames m)\<rparr>)
      }
      else Some m)"

text \<open>Lines 88 to 91: the dictionaries of the class and of the case are created when new.\<close>

definition ensure_case :: "string \<Rightarrow> string \<Rightarrow> matrix \<Rightarrow> matrix option" where
  "ensure_case testclass basename m =
     (let m = (if \<not> dict_in testclass (cases m)
               then m\<lparr>cases := dict_set testclass [] (cases m)\<rparr> else m)
      in do {
        by_case \<leftarrow> dict_get testclass (cases m);
        Some (if \<not> dict_in basename by_case
              then m\<lparr>cases := dict_set testclass (dict_set basename [] by_case) (cases m)\<rparr>
              else m)
      })"

text \<open>Lines 95 to 97: the counter of the case's outcome goes up by one.\<close>

definition count_outcome :: "testcase \<Rightarrow> matrix \<Rightarrow> matrix" where
  "count_outcome tc m =
     (let outcome = case_outcome tc
      in m\<lparr>result_stats :=
             dict_set outcome (1 + dict_get_default outcome 0 (result_stats m))
               (result_stats m)\<rparr>)"

text \<open>The body of the loop over the cases of a class, lines 84 to 109.\<close>

definition add_case :: "string \<Rightarrow> string \<Rightarrow> testcase \<Rightarrow> matrix \<Rightarrow> matrix option" where
  "add_case filename testclass tc m =
     (let basename = strip (case_basename tc) in do {
        m \<leftarrow> note_casename testclass basename m;
        m \<leftarrow> ensure_case testclass basename m;
        m \<leftarrow> store_case testclass basename filename tc m;
        for_each (add_prop testclass basename tc) (case_properties tc) (count_outcome tc m)
      })"

text \<open>Lines 77 to 80: the entries of a class are created when it is new.\<close>

definition ensure_class :: "string \<Rightarrow> matrix \<Rightarrow> matrix" where
  "ensure_class testclass m =
     (let m = (if \<not> dict_in testclass (classes m)
               then m\<lparr>classes := dict_set testclass [] (classes m)\<rparr> else m)
      in if \<not> dict_in testclass (casenames m)
         then m\<lparr>casenames := dict_set testclass [] (casenames m)\<rparr> else m)"

text \<open>Line 81: \<open>self.classes[testclass][filename] = suite.classes[testclass]\<close>.\<close>

definition store_class :: "string \<Rightarrow> suite \<Rightarrow> string \<Rightarrow> matrix \<Rightarrow> matrix option" where
  "store_class filename s testclass m = do {
     cls \<leftarrow> dict_get testclass (suite_classes s);
     by_file \<leftarrow> dict_get testclass (classes m);
     Some (m\<lparr>classes := dict_set testclass (dict_set filename cls by_file) (classes m)\<rparr>)
   }"

text \<open>
  The body of the loop over the classes of a suite, lines 77 to 109. The inner loop runs
  over \<open>self.classes[testclass][filename].cases\<close>, read back from the matrix.
\<close>

definition add_class :: "string \<Rightarrow> suite \<Rightarrow> string \<Rightarrow> matrix \<Rightarrow> matrix option" where
  "add_class filename s testclass m = do {
     m \<leftarrow> store_class filename s testclass (ensure_class testclass m);
     stored \<leftarrow> classes_at m testclass filename;
     for_each (add_case filename testclass) (class_cases stored) m
   }"

definition add_suite :: "string \<Rightarrow> suite \<Rightarrow> matrix \<Rightarrow> matrix option" where
  "add_suite filename s m = for_each (add_class filename s) (keys (suite_classes s)) m"

text \<open>
  \<open>add_report(filename)\<close>. The parser is not part of this module: \<open>parsed\<close> stands for
  the value of \<open>parser.Junit(filename=filename)\<close>.
\<close>

definition add_report :: "string \<Rightarrow> junit \<Rightarrow> matrix \<Rightarrow> matrix option" where
  "add_report path parsed m =
     (let filename = os_path_basename path;
          m = m\<lparr>reports := dict_set filename parsed (reports m)\<rparr>
      in for_each (add_suite filename) (junit_suites parsed) m)"

text \<open>A run: the caller loads one report after the other.\<close>

definition add_reports :: "(string \<times> junit) list \<Rightarrow> matrix \<Rightarrow> matrix option" where
  "add_reports rs m = for_each (\<lambda>r. add_report (fst r) (snd r)) rs m"

subsection \<open>What is read back from the matrix\<close>

text \<open>The count of an outcome, as the statistics table prints it, and the counter's total.\<close>

definition stat :: "matrix \<Rightarrow> string \<Rightarrow> int" where
  "stat m outcome = dict_get_default outcome 0 (result_stats m)"

definition stats_total :: "matrix \<Rightarrow> int" where
  "stats_total m = sum_list (map snd (result_stats m))"

text \<open>
  The case occurrences of a report, each with its class name, in the order in which
  \<open>add_report\<close> visits them: suite by suite, class key by class key, case by case.
\<close>

definition suite_cases :: "suite \<Rightarrow> (string \<times> testcase) list" where
  "suite_cases s =
     concat (map (\<lambda>k. case dict_get k (suite_classes s) of
                         None \<Rightarrow> []
                       | Some cls \<Rightarrow> map (Pair k) (class_cases cls))
                 (keys (suite_classes s)))"

definition junit_cases :: "junit \<Rightarrow> (string \<times> testcase) list" where
  "junit_cases parsed = concat (map suite_cases (junit_suites parsed))"

text \<open>How many case occurrences of a report have a given outcome.\<close>

definition outcome_count :: "junit \<Rightarrow> string \<Rightarrow> nat" where
  "outcome_count parsed outcome =
     length (filter (\<lambda>e. case_outcome (snd e) = outcome) (junit_cases parsed))"

section \<open>Sorting\<close>

text \<open>
  \<open>_nsre.split(s)\<close> with \<open>_nsre = re.compile('([0-9]+)')\<close>: the string is cut at every
  maximal run of digits, and the runs are kept, so the result alternates text, digits,
  text, ..., and begins and ends with a text (empty when the string begins or ends with
  a digit). \<open>cur\<close> is the piece being read, \<open>in_digits\<close> says that it is a run of
  digits.
\<close>

fun nsre_from :: "bool \<Rightarrow> string \<Rightarrow> string \<Rightarrow> string list" where
  "nsre_from in_digits cur [] = (if in_digits then [cur, []] else [cur])"
| "nsre_from in_digits cur (c # cs) =
     (if is_digit c = in_digits then nsre_from in_digits (cur @ [c]) cs
      else cur # nsre_from (\<not> in_digits) [c] cs)"

definition nsre_split :: "string \<Rightarrow> string list" where
  "nsre_split s = nsre_from False [] s"

text \<open>
  \<open>text.isdigit()\<close>: not empty, and digits only. For \<open>str.isdigit\<close> the digits are
  \<open>0..9\<close> and the superscripts two, three and one (code points 178, 179 and 185).
\<close>

definition is_superscript :: "char \<Rightarrow> bool" where
  "is_superscript c =
     ((of_char c :: nat) = 178 \<or> (of_char c :: nat) = 179 \<or> (of_char c :: nat) = 185)"

definition isdigit :: "string \<Rightarrow> bool" where
  "isdigit s = (s \<noteq> [] \<and> list_all (\<lambda>c. is_digit c \<or> is_superscript c) s)"

text \<open>
  \<open>int(text)\<close> for a text that \<open>str.isdigit\<close> accepts. \<open>None\<close> is the \<open>ValueError\<close>
  that \<open>int\<close> raises for a character that is not one of \<open>0..9\<close>, and for more digits
  than \<open>sys.get_int_max_str_digits()\<close>, 4300 unless the interpreter is told otherwise.
\<close>

definition int_max_str_digits :: nat where
  "int_max_str_digits = 4300"

definition int_text :: "string \<Rightarrow> nat option" where
  "int_text s =
     (if s \<noteq> [] \<and> list_all is_digit s \<and> length s \<le> int_max_str_digits
      then Some (int_of_digits s) else None)"

text \<open>The elements of a sort key: an \<open>int\<close> or a lower-cased text.\<close>

datatype key_part = KInt nat | KStr string

text \<open>
  \<open>natural_sort_key\<close>. The list comprehension makes one element of each piece, from
  left to right, and the first \<open>ValueError\<close> ends it: \<open>those\<close> gives \<open>None\<close> when one
  of the elements is \<open>None\<close>.
\<close>

definition key_part_of :: "string \<Rightarrow> key_part option" where
  "key_part_of text =
     (if isdigit text then map_option KInt (int_text text) else Some (KStr (lower text)))"

definition natural_sort_key :: "string \<Rightarrow> key_part list option" where
  "natural_sort_key s = those (map key_part_of (nsre_split s))"

text \<open>\<open>a < b\<close> on strings: by code point, a proper prefix first.\<close>

fun str_lt :: "string \<Rightarrow> string \<Rightarrow> bool" where
  "str_lt [] [] = False"
| "str_lt [] (y # ys) = True"
| "str_lt (x # xs) [] = False"
| "str_lt (x # xs) (y # ys) =
     (if x = y then str_lt xs ys else (of_char x :: nat) < of_char y)"

text \<open>
  \<open>a < b\<close> on two elements of a key; \<open>None\<close> is the \<open>TypeError\<close> of comparing an
  \<open>int\<close> with a \<open>str\<close>.
\<close>

fun part_lt :: "key_part \<Rightarrow> key_part \<Rightarrow> bool option" where
  "part_lt (KInt a) (KInt b) = Some (a < b)"
| "part_lt (KStr a) (KStr b) = Some (str_lt a b)"
| "part_lt (KInt a) (KStr b) = None"
| "part_lt (KStr a) (KInt b) = None"

text \<open>
  \<open>a < b\<close> on two lists: the first position where the elements are not equal decides,
  and a proper prefix is smaller.
\<close>

fun key_lt :: "key_part list \<Rightarrow> key_part list \<Rightarrow> bool option" where
  "key_lt [] [] = Some False"
| "key_lt [] (y # ys) = Some True"
| "key_lt (x # xs) [] = Some False"
| "key_lt (x # xs) (y # ys) = (if x = y then key_lt xs ys else part_lt x y)"

text \<open>
  \<open>sorted(xs, key=f)\<close>: the keys of all elements are computed first, then the sort runs,
  and it is stable. The elements are taken from left to right, and each is put into the
  sorted part before the first element whose key is greater, so after the elements with
  an equal key. \<open>None\<close> is an exception raised by the key function or by a comparison.
\<close>

fun insort_right :: "('k \<Rightarrow> 'k \<Rightarrow> bool option) \<Rightarrow> 'k \<times> 'a \<Rightarrow> ('k \<times> 'a) list
    \<Rightarrow> ('k \<times> 'a) list option" where
  "insort_right lt x [] = Some [x]"
| "insort_right lt x (y # ys) =
     (case lt (fst x) (fst y) of
        None \<Rightarrow> None
      | Some True \<Rightarrow> Some (x # y # ys)
      | Some False \<Rightarrow> map_option ((#) y) (insort_right lt x ys))"

definition sorted_key :: "('k \<Rightarrow> 'k \<Rightarrow> bool option) \<Rightarrow> ('a \<Rightarrow> 'k option) \<Rightarrow> 'a list
    \<Rightarrow> 'a list option" where
  "sorted_key lt f xs = do {
     ks \<leftarrow> those (map f xs);
     map_option (map snd) (for_each (insort_right lt) (zip ks xs) [])
   }"

text \<open>\<open>ReportMatrix.report_order\<close> and \<open>ReportMatrix.property_order\<close>\<close>

definition report_order :: "matrix \<Rightarrow> string list option" where
  "report_order m = sorted_key (\<lambda>a b. Some (str_lt a b)) Some (keys (reports m))"

definition property_order :: "matrix \<Rightarrow> string list option" where
  "property_order m = sorted_key key_lt natural_sort_key (keys (properties m))"

section \<open>The rows of the HTML matrix\<close>

text \<open>\<open>'{}'.format(anchor)\<close>, where \<open>anchor\<close> may be \<open>None\<close>.\<close>

definition format_anchor :: "string option \<Rightarrow> string" where
  "format_anchor anchor = (case anchor of None \<Rightarrow> ''None'' | Some a \<Rightarrow> a)"

text \<open>The link of a cell, lines 217 to 222.\<close>

definition cell_link :: "string \<Rightarrow> string option \<Rightarrow> string \<Rightarrow> string \<Rightarrow> string \<Rightarrow> string" where
  "cell_link report_name anchor cell cellclass axis =
     ''<a class='tooltip-parent testcase-link' href='' @ CHR 0x27 # report_name @ ''.html#''
       @ format_anchor anchor @ '''>'' @ cell
       @ ''<div class='tooltip'>('' @ title cellclass @ '') '' @ axis @ ''</div>''
       @ ''</a>''"

text \<open>
  What the loop over the axes carries: \<open>case_results\<close>, \<open>celltds\<close> and
  \<open>property_class\<close>.
\<close>

record row_state =
  case_results :: "string list"
  celltds :: string
  property_class :: "(string, string) dict"

text \<open>
  The body of the loop over the axes, lines 203 to 231, in \<open>HtmlReportMatrix.summary\<close>.
  \<open>None\<close> is the \<open>KeyError\<close> of \<open>self.cases[classname][casename]\<close> or the
  \<open>IndexError\<close> of \<open>list(self.reports.keys())[0]\<close>.
\<close>

definition html_axis :: "matrix \<Rightarrow> string \<Rightarrow> string \<Rightarrow> string \<Rightarrow> row_state \<Rightarrow> row_state option" where
  "html_axis m classname casename axis st = do {
     by_case \<leftarrow> dict_get classname (cases m);
     by_axis \<leftarrow> dict_get casename by_case;
     let (cellclass, anchor, cell) =
       (if \<not> dict_in axis by_axis then (ABSENT, None, ''&nbsp;'')
        else case dict_get axis by_axis of
               None \<Rightarrow> (ABSENT, None, ''&nbsp;'')
             | Some tc \<Rightarrow> (case_outcome tc, Some (case_anchor tc),
                          short_outcome HtmlReportMatrix (case_outcome tc)));
     report_name \<leftarrow> (case keys (reports m) of [] \<Rightarrow> None | k # _ \<Rightarrow> Some k);
     let cell = cell_link report_name anchor cell cellclass axis;
     let cell = (if cellclass = ABSENT then '''' else cell);
     Some \<lparr>case_results = case_results st @ [cellclass],
           celltds = celltds st @ ''<td class='testcase-cell '' @ cellclass @ '''>'' @ cell
             @ ''</td>'',
           property_class =
             (if dict_get axis (property_class st) \<in> {None, Some ABSENT}
              then dict_set axis cellclass (property_class st) else property_class st)\<rparr>
   }"

text \<open>
  One row, lines 198 to 233: the cells of a case and its combined label. The
  \<open>property_class\<close> dictionary goes from row to row.
\<close>

definition html_row :: "matrix \<Rightarrow> string \<Rightarrow> string \<Rightarrow> (string, string) dict
    \<Rightarrow> (row_state \<times> string) option" where
  "html_row m classname casename pc = do {
     axes \<leftarrow> property_order m;
     st \<leftarrow> for_each (html_axis m classname casename) axes
             \<lparr>case_results = [], celltds = [], property_class = pc\<rparr>;
     Some (st, snd (combined_result HtmlReportMatrix (case_results st)))
   }"

section \<open>Notions used in the proofs\<close>

text \<open>The dictionaries that line 93 subscripts exist: \<open>self.cases[c][b]\<close> is defined.\<close>

definition case_ready :: "matrix \<Rightarrow> string \<Rightarrow> string \<Rightarrow> bool" where
  "case_ready m c b = (case dict_get c (cases m) of None \<Rightarrow> False | Some by_case \<Rightarrow> dict_in b by_case)"

text \<open>
  One increment of the counter, and the counter after a list of case occurrences.
\<close>

definition bump :: "string \<Rightarrow> (string, int) dict \<Rightarrow> (string, int) dict" where
  "bump outcome d = dict_set outcome (1 + dict_get_default outcome 0 d) d"

definition count_case :: "string \<times> testcase \<Rightarrow> (string, int) dict \<Rightarrow> (string, int) dict" where
  "count_case e d = bump (case_outcome (snd e)) d"

text \<open>
  The last value stored wins: what a list of case occurrences leaves under one class,
  one case name and the axis of the report, and what a list of classes leaves under
  one class name.
\<close>

definition write_case :: "string \<Rightarrow> string \<Rightarrow> string \<times> testcase \<Rightarrow> testcase option \<Rightarrow> testcase option" where
  "write_case c b e cur = (if fst e = c \<and> strip (case_basename (snd e)) = b then Some (snd e) else cur)"

definition write_class :: "string \<Rightarrow> string \<times> testclass \<Rightarrow> testclass option \<Rightarrow> testclass option" where
  "write_class c e cur = (if fst e = c then Some (snd e) else cur)"

text \<open>The classes of a report, each with its name, in the order of the visit.\<close>

definition suite_items :: "suite \<Rightarrow> (string \<times> testclass) list" where
  "suite_items s =
     concat (map (\<lambda>k. case dict_get k (suite_classes s) of None \<Rightarrow> [] | Some cls \<Rightarrow> [(k, cls)])
                 (keys (suite_classes s)))"

definition junit_items :: "junit \<Rightarrow> (string \<times> testclass) list" where
  "junit_items parsed = concat (map suite_items (junit_suites parsed))"

definition case_warnings :: "(string, testcase list) dict \<Rightarrow> testcase \<Rightarrow> string list" where
  "case_warnings props tc =
     map (\<lambda>p. warning (prop_value p))
       (filter (\<lambda>p. \<not> dict_in (prop_value p) props) (case_properties tc))"




text \<open>
  The class of the cell of one axis in the row of a case, as the loop of the summary
  computes it, and the outcomes of the cells of the row that hold data.
\<close>

definition cell_class :: "matrix \<Rightarrow> string \<Rightarrow> string \<Rightarrow> string \<Rightarrow> string" where
  "cell_class m classname casename axis =
     (case cases_at m classname casename axis of None \<Rightarrow> ABSENT | Some tc \<Rightarrow> case_outcome tc)"

definition observed_outcomes :: "matrix \<Rightarrow> string \<Rightarrow> string \<Rightarrow> string list \<Rightarrow> string list" where
  "observed_outcomes m classname casename axes =
     concat (map (\<lambda>axis. case cases_at m classname casename axis of
                             None \<Rightarrow> [] | Some tc \<Rightarrow> [case_outcome tc]) axes)"

section \<open>Facts about the vocabulary\<close>

lemmas outcome_defs =
  PASSED_def FAILED_def SKIPPED_def ABSENT_def
  UNTESTED_def PARTIAL_PASS_def PARTIAL_FAIL_def TOTAL_FAIL_def

lemma title_PARTIAL_FAIL: "title PARTIAL_FAIL = ''Partial Failure''"
  by code_simp

lemma title_PARTIAL_PASS: "title PARTIAL_PASS = ''Partial Pass''"
  by code_simp

lemma title_PASSED: "title PASSED = ''Passed''"
  by code_simp

lemma title_TOTAL_FAIL: "title TOTAL_FAIL = ''Total Failure''"
  by code_simp

lemma title_UNTESTED: "title UNTESTED = ''Untested''"
  by code_simp

lemmas title_simps =
  title_PARTIAL_FAIL title_PARTIAL_PASS title_PASSED title_TOTAL_FAIL title_UNTESTED

lemma short_outcome_derived:
  "short_outcome self PARTIAL_FAIL = ''X''"
  "short_outcome self PARTIAL_PASS = ''%''"
  "short_outcome self TOTAL_FAIL = ''F''"
  "short_outcome self UNTESTED = ''U''"
  "short_outcome self PASSED = (if self = HtmlReportMatrix then ''ok'' else ''/'')"
  by (cases self; simp add: short_outcome_base_def outcome_defs)+

section \<open>Dictionaries\<close>

lemma dict_get_dict_set: "dict_get k' (dict_set k v d) = (if k' = k then Some v else dict_get k' d)"
  by (induction d) (auto simp: dict_get_def)

lemma dict_get_Nil [simp]: "dict_get k [] = None"
  by (simp add: dict_get_def)

lemma keys_dict_set: "keys (dict_set k v d) = (if k \<in> set (keys d) then keys d else keys d @ [k])"
  by (induction d) (auto simp: keys_def)

lemma dict_in_dict_set: "dict_in k' (dict_set k v d) \<longleftrightarrow> k' = k \<or> dict_in k' d"
  by (auto simp: dict_in_def keys_dict_set)

lemma dict_in_get: "dict_in k d \<longleftrightarrow> dict_get k d \<noteq> None"
  by (simp add: dict_in_def dict_get_def keys_def map_of_eq_None_iff)

lemma dict_get_default_dict_set:
  "dict_get_default k' x (dict_set k v d) = (if k' = k then v else dict_get_default k' x d)"
  using dict_get_dict_set [of k' k v d] by (simp add: dict_get_default_def dict_get_def)

lemma sum_dict_set:
  "sum_list (map snd (dict_set k v d)) = sum_list (map snd d) - dict_get_default k 0 d + (v::int)"
  by (induction d) (auto simp: dict_get_default_def)

section \<open>Loops\<close>

lemma for_each_inv:
  assumes "\<And>x s. x \<in> set xs \<Longrightarrow> I s \<Longrightarrow> \<exists>s'. body x s = Some s' \<and> I s'"
    and "I s"
  shows "\<exists>s'. for_each body xs s = Some s' \<and> I s'"
  using assms
proof (induction xs arbitrary: s)
  case Nil
  then show ?case by simp
next
  case (Cons x xs)
  from Cons.prems obtain s1 where s1: "body x s = Some s1" "I s1" by (meson list.set_intros(1))
  have "\<exists>s'. for_each body xs s1 = Some s' \<and> I s'"
    by (rule Cons.IH) (use Cons.prems s1 in auto)
  with s1 show ?case by simp
qed

lemma for_each_fold:
  assumes "\<And>x s s'. x \<in> set xs \<Longrightarrow> body x s = Some s' \<Longrightarrow> obs s' = fold step (g x) (obs s)"
    and "for_each body xs s = Some s'"
  shows "obs s' = fold step (concat (map g xs)) (obs s)"
  using assms
proof (induction xs arbitrary: s)
  case Nil
  then show ?case by simp
next
  case (Cons x xs)
  from Cons.prems(2) obtain s1 where s1: "body x s = Some s1" "for_each body xs s1 = Some s'"
    by (auto split: option.splits)
  have a: "obs s1 = fold step (g x) (obs s)" using Cons.prems(1) [of x s s1] s1(1) by simp
  have "obs s' = fold step (concat (map g xs)) (obs s1)"
    by (rule Cons.IH) (use Cons.prems(1) s1 in auto)
  with a show ?case by simp
qed

lemma for_each_same:
  assumes "\<And>x s s'. x \<in> set xs \<Longrightarrow> body x s = Some s' \<Longrightarrow> obs s' = obs s"
    and "for_each body xs s = Some s'"
  shows "obs s' = obs s"
  using assms
proof (induction xs arbitrary: s)
  case Nil
  then show ?case by simp
next
  case (Cons x xs)
  from Cons.prems(2) obtain s1 where s1: "body x s = Some s1" "for_each body xs s1 = Some s'"
    by (auto split: option.splits)
  have a: "obs s1 = obs s" using Cons.prems(1) [of x s s1] s1(1) by simp
  have "obs s' = obs s1"
    by (rule Cons.IH) (use Cons.prems(1) s1 in auto)
  with a show ?case by simp
qed

section \<open>Steps of a case\<close>

lemma case_readyE:
  assumes "case_ready m c b"
  obtains by_case by_axis where "dict_get c (cases m) = Some by_case" "dict_get b by_case = Some by_axis"
  using assms by (auto simp: case_ready_def dict_in_get split: option.splits)

lemma store_case_known:
  assumes "dict_get c (cases m) = Some by_case" and "dict_get b by_case = Some by_axis"
  shows "store_case c b k tc m =
    Some (m\<lparr>cases := dict_set c (dict_set b (dict_set k tc by_axis) by_case) (cases m)\<rparr>)"
  using assms by (simp add: store_case_def)

lemma store_case_total:
  assumes "case_ready m c b"
  shows "\<exists>m'. store_case c b k tc m = Some m'"
proof -
  from assms obtain by_case by_axis where
    c: "dict_get c (cases m) = Some by_case" "dict_get b by_case = Some by_axis"
    by (rule case_readyE)
  show ?thesis
    unfolding store_case_known [OF c] by simp
qed

lemma store_case_frame:
  assumes "store_case c b k tc m = Some m'"
  shows "reports m' = reports m" "classes m' = classes m" "casenames m' = casenames m"
    "result_stats m' = result_stats m" "properties m' = properties m" "stdout m' = stdout m"
  using assms by (auto simp: store_case_def split: bind_splits)

lemma store_case_cases_at:
  assumes "store_case c b k tc m = Some m'"
  shows "cases_at m' c' b' k' = (if c' = c \<and> b' = b \<and> k' = k then Some tc else cases_at m c' b' k')"
proof -
  from assms obtain by_case by_axis where
    c: "dict_get c (cases m) = Some by_case" "dict_get b by_case = Some by_axis"
    and m': "m' = m\<lparr>cases := dict_set c (dict_set b (dict_set k tc by_axis) by_case) (cases m)\<rparr>"
    by (auto simp: store_case_def split: bind_splits)
  show ?thesis
  proof (cases "c' = c")
    case False
    then show ?thesis by (simp add: m' cases_at_def dict_get_dict_set)
  next
    case c1: True
    show ?thesis
    proof (cases "b' = b")
      case False
      then show ?thesis using c c1 by (simp add: m' cases_at_def dict_get_dict_set)
    next
      case True
      then show ?thesis using c c1 by (simp add: m' cases_at_def dict_get_dict_set)
    qed
  qed
qed

lemma store_case_ready:
  assumes "store_case c b k tc m = Some m'" "case_ready m c0 b0"
  shows "case_ready m' c0 b0"
proof -
  from assms obtain by_case by_axis where
    c: "dict_get c (cases m) = Some by_case" "dict_get b by_case = Some by_axis"
    and m': "m' = m\<lparr>cases := dict_set c (dict_set b (dict_set k tc by_axis) by_case) (cases m)\<rparr>"
    by (auto simp: store_case_def split: bind_splits)
  show ?thesis
    using assms(2) c
    by (cases "c0 = c") (simp_all add: m' case_ready_def dict_get_dict_set dict_in_dict_set)
qed

lemma cases_at_new_class:
  assumes "\<not> dict_in c (cases m)"
  shows "cases_at (m\<lparr>cases := dict_set c [] (cases m)\<rparr>) c' b' k' = cases_at m c' b' k'"
proof -
  have "dict_get c (cases m) = None" using assms by (simp add: dict_in_get)
  then show ?thesis
    by (cases "c' = c") (simp_all add: cases_at_def dict_get_dict_set)
qed

lemma cases_at_new_case:
  assumes "dict_get c (cases m) = Some by_case" "\<not> dict_in b by_case"
  shows "cases_at (m\<lparr>cases := dict_set c (dict_set b [] by_case) (cases m)\<rparr>) c' b' k' = cases_at m c' b' k'"
proof -
  have n: "dict_get b by_case = None" using assms(2) by (simp add: dict_in_get)
  show ?thesis
  proof (cases "c' = c")
    case False
    then show ?thesis by (simp add: cases_at_def dict_get_dict_set)
  next
    case True
    then show ?thesis using assms(1) n
      by (cases "b' = b") (simp_all add: cases_at_def dict_get_dict_set)
  qed
qed

lemma ensure_case_effect:
  "\<exists>m'. ensure_case c b m = Some m' \<and> case_ready m' c b
     \<and> (\<forall>c' b' k'. cases_at m' c' b' k' = cases_at m c' b' k')
     \<and> (\<forall>c0 b0. case_ready m c0 b0 \<longrightarrow> case_ready m' c0 b0)
     \<and> reports m' = reports m \<and> classes m' = classes m \<and> casenames m' = casenames m
     \<and> result_stats m' = result_stats m \<and> properties m' = properties m \<and> stdout m' = stdout m"
proof -
  define m1 where "m1 = (if \<not> dict_in c (cases m) then m\<lparr>cases := dict_set c [] (cases m)\<rparr> else m)"
  have at1: "cases_at m1 c' b' k' = cases_at m c' b' k'" for c' b' k'
    by (simp add: m1_def cases_at_new_class)
  have fr1: "reports m1 = reports m" "classes m1 = classes m" "casenames m1 = casenames m"
    "result_stats m1 = result_stats m" "properties m1 = properties m" "stdout m1 = stdout m"
    by (simp_all add: m1_def)
  have rd1: "case_ready m c0 b0 \<Longrightarrow> case_ready m1 c0 b0" for c0 b0
    by (cases "c0 = c") (auto simp: m1_def case_ready_def dict_get_dict_set dict_in_get split: option.splits)
  obtain by_case where bc: "dict_get c (cases m1) = Some by_case"
    by (cases "dict_in c (cases m)") (auto simp: m1_def dict_in_get dict_get_dict_set)
  define m2 where "m2 = (if \<not> dict_in b by_case
     then m1\<lparr>cases := dict_set c (dict_set b [] by_case) (cases m1)\<rparr> else m1)"
  have eq: "ensure_case c b m = Some m2"
    using bc by (simp add: ensure_case_def m1_def [symmetric] m2_def [symmetric] Let_def)
  have at2: "cases_at m2 c' b' k' = cases_at m1 c' b' k'" for c' b' k'
    using bc by (simp add: m2_def cases_at_new_case)
  have rd: "case_ready m2 c b"
    using bc by (auto simp: m2_def case_ready_def dict_get_dict_set dict_in_dict_set)
  have rd2: "case_ready m1 c0 b0 \<Longrightarrow> case_ready m2 c0 b0" for c0 b0
    using bc
    by (cases "c0 = c") (auto simp: m2_def case_ready_def dict_get_dict_set dict_in_dict_set split: option.splits)
  have fr2: "reports m2 = reports m1" "classes m2 = classes m1" "casenames m2 = casenames m1"
    "result_stats m2 = result_stats m1" "properties m2 = properties m1" "stdout m2 = stdout m1"
    by (simp_all add: m2_def)
  show ?thesis
    using eq at1 at2 rd rd1 rd2 fr1 fr2 by simp
qed

section \<open>One property\<close>

lemma add_prop_unknown:
  "\<not> dict_in (prop_value p) (properties m) \<Longrightarrow>
   add_prop c b tc p m = Some (m\<lparr>stdout := stdout m @ [warning (prop_value p)]\<rparr>)"
  by (simp add: add_prop_def)

lemma add_prop_known:
  assumes "dict_get (prop_value p) (properties m) = Some tests"
  shows "add_prop c b tc p m =
    store_case c b (prop_value p) tc
      (m\<lparr>properties := dict_set (prop_value p) (tests @ [tc]) (properties m)\<rparr>)"
  using assms by (simp add: add_prop_def dict_in_get)

lemma case_ready_fields [simp]:
  "case_ready (m\<lparr>properties := x\<rparr>) = case_ready m"
  "case_ready (m\<lparr>stdout := y\<rparr>) = case_ready m"
  "case_ready (m\<lparr>result_stats := z\<rparr>) = case_ready m"
  "case_ready (m\<lparr>casenames := u\<rparr>) = case_ready m"
  "case_ready (m\<lparr>classes := w\<rparr>) = case_ready m"
  "case_ready (m\<lparr>reports := r\<rparr>) = case_ready m"
  by (simp_all add: case_ready_def fun_eq_iff)

lemma cases_at_fields [simp]:
  "cases_at (m\<lparr>properties := x\<rparr>) = cases_at m"
  "cases_at (m\<lparr>stdout := y\<rparr>) = cases_at m"
  "cases_at (m\<lparr>result_stats := z\<rparr>) = cases_at m"
  "cases_at (m\<lparr>casenames := u\<rparr>) = cases_at m"
  "cases_at (m\<lparr>classes := w\<rparr>) = cases_at m"
  "cases_at (m\<lparr>reports := r\<rparr>) = cases_at m"
  by (simp_all add: cases_at_def fun_eq_iff)

lemma add_prop_total:
  assumes "case_ready m c b"
  shows "\<exists>m'. add_prop c b tc p m = Some m'"
proof (cases "dict_in (prop_value p) (properties m)")
  case False
  then show ?thesis by (simp add: add_prop_unknown)
next
  case True
  then obtain tests where t: "dict_get (prop_value p) (properties m) = Some tests"
    by (auto simp: dict_in_get)
  show ?thesis
    unfolding add_prop_known [OF t] by (rule store_case_total) (simp add: assms)
qed

lemma add_prop_ready:
  assumes "add_prop c b tc p m = Some m'" "case_ready m c0 b0"
  shows "case_ready m' c0 b0"
proof (cases "dict_in (prop_value p) (properties m)")
  case False
  then show ?thesis using assms by (auto simp: add_prop_unknown)
next
  case True
  then obtain tests where t: "dict_get (prop_value p) (properties m) = Some tests"
    by (auto simp: dict_in_get)
  show ?thesis
    using assms(1) unfolding add_prop_known [OF t]
    by (rule store_case_ready) (simp add: assms(2))
qed

lemma add_prop_frame:
  assumes "add_prop c b tc p m = Some m'"
  shows "reports m' = reports m" "classes m' = classes m" "casenames m' = casenames m"
    "result_stats m' = result_stats m" "keys (properties m') = keys (properties m)"
proof -
  show "reports m' = reports m" "classes m' = classes m" "casenames m' = casenames m"
    "result_stats m' = result_stats m"
    using assms
    by (auto simp: add_prop_def dest: store_case_frame split: if_splits bind_splits)
  show "keys (properties m') = keys (properties m)"
    using assms
    by (auto simp: add_prop_def keys_dict_set dict_in_def dest!: store_case_frame(5)
        split: if_splits bind_splits)
qed

lemma add_prop_stdout:
  assumes "add_prop c b tc p m = Some m'"
  shows "stdout m' = stdout m @
     (if dict_in (prop_value p) (properties m) then [] else [warning (prop_value p)])"
  using assms
  by (auto simp: add_prop_def dest!: store_case_frame(6) split: if_splits bind_splits)

lemma add_prop_cases_at:
  assumes "add_prop c b tc p m = Some m'"
  shows "cases_at m' c' b' k =
     (if c' = c \<and> b' = b \<and> k = prop_value p \<and> dict_in (prop_value p) (properties m)
      then Some tc else cases_at m c' b' k)"
proof (cases "dict_in (prop_value p) (properties m)")
  case False
  then show ?thesis using assms by (auto simp: add_prop_unknown)
next
  case True
  then obtain tests where t: "dict_get (prop_value p) (properties m) = Some tests"
    by (auto simp: dict_in_get)
  show ?thesis
    using assms True store_case_cases_at [of c b "prop_value p" tc _ m' c' b' k]
    unfolding add_prop_known [OF t] by simp
qed

lemma add_prop_properties:
  assumes "add_prop c b tc p m = Some m'"
  shows "dict_get v (properties m') =
     (if v = prop_value p \<and> dict_in v (properties m)
      then map_option (\<lambda>tests. tests @ [tc]) (dict_get v (properties m))
      else dict_get v (properties m))"
  using assms
  by (auto simp: add_prop_def dict_get_dict_set dest!: store_case_frame(5)
      split: if_splits bind_splits)

section \<open>The properties of a case\<close>

lemma add_props_total:
  assumes "case_ready m c b"
  shows "\<exists>m'. for_each (add_prop c b tc) ps m = Some m' \<and> case_ready m' c b"
  by (rule for_each_inv [where I = "\<lambda>m. case_ready m c b"])
    (use assms add_prop_total add_prop_ready in blast)+

lemma add_props_ready:
  assumes "for_each (add_prop c b tc) ps m = Some m'" "case_ready m c0 b0"
  shows "case_ready m' c0 b0"
  using assms
proof (induction ps arbitrary: m)
  case Nil
  then show ?case by simp
next
  case (Cons p ps)
  from Cons.prems(1) obtain m1 where m1: "add_prop c b tc p m = Some m1"
    "for_each (add_prop c b tc) ps m1 = Some m'"
    by (auto split: option.splits)
  show ?case
    by (rule Cons.IH [OF m1(2)]) (rule add_prop_ready [OF m1(1) Cons.prems(2)])
qed

lemma add_props_frame:
  assumes "for_each (add_prop c b tc) ps m = Some m'"
  shows "reports m' = reports m" "classes m' = classes m" "casenames m' = casenames m"
    "result_stats m' = result_stats m" "keys (properties m') = keys (properties m)"
  by (rule for_each_same [OF _ assms]; simp add: add_prop_frame)+

lemma add_props_stdout:
  assumes "for_each (add_prop c b tc) ps m = Some m'"
  shows "stdout m' = stdout m @
     map (\<lambda>p. warning (prop_value p)) (filter (\<lambda>p. \<not> dict_in (prop_value p) (properties m)) ps)"
  using assms
proof (induction ps arbitrary: m)
  case Nil
  then show ?case by simp
next
  case (Cons p ps)
  from Cons.prems(1) obtain m1 where m1: "add_prop c b tc p m = Some m1"
    "for_each (add_prop c b tc) ps m1 = Some m'"
    by (auto split: option.splits)
  have k: "dict_in v (properties m1) = dict_in v (properties m)" for v
    using add_prop_frame(5) [OF m1(1)] by (simp add: dict_in_def)
  show ?case
    using Cons.IH [OF m1(2)] add_prop_stdout [OF m1(1)] by (simp add: k)
qed

lemma add_props_cases_at:
  assumes "for_each (add_prop c b tc) ps m = Some m'"
  shows "cases_at m' c' b' k =
     (if c' = c \<and> b' = b \<and> k \<in> prop_value ` set ps \<and> dict_in k (properties m)
      then Some tc else cases_at m c' b' k)"
  using assms
proof (induction ps arbitrary: m)
  case Nil
  then show ?case by simp
next
  case (Cons p ps)
  from Cons.prems(1) obtain m1 where m1: "add_prop c b tc p m = Some m1"
    "for_each (add_prop c b tc) ps m1 = Some m'"
    by (auto split: option.splits)
  have k: "dict_in v (properties m1) = dict_in v (properties m)" for v
    using add_prop_frame(5) [OF m1(1)] by (simp add: dict_in_def)
  show ?case
    using Cons.IH [OF m1(2), unfolded k] add_prop_cases_at [OF m1(1), of c' b' k] by auto
qed

lemma add_props_properties:
  assumes "for_each (add_prop c b tc) ps m = Some m'" "p \<in> set ps"
    "dict_in (prop_value p) (properties m)"
  shows "\<exists>tests. dict_get (prop_value p) (properties m') = Some tests \<and> tc \<in> set tests"
proof -
  have keep: "\<exists>tests. dict_get v (properties m') = Some tests \<and> tc \<in> set tests"
    if "for_each (add_prop c b tc) ps m = Some m'"
      "\<exists>tests. dict_get v (properties m) = Some tests \<and> tc \<in> set tests" for ps m v
    using that
  proof (induction ps arbitrary: m)
    case Nil
    then show ?case by simp
  next
    case (Cons q qs)
    from Cons.prems(1) obtain m1 where m1: "add_prop c b tc q m = Some m1"
      "for_each (add_prop c b tc) qs m1 = Some m'"
      by (auto split: option.splits)
    have "\<exists>tests. dict_get v (properties m1) = Some tests \<and> tc \<in> set tests"
      using Cons.prems(2) by (auto simp: add_prop_properties [OF m1(1)])
    then show ?case by (rule Cons.IH [OF m1(2)])
  qed
  show ?thesis
    using assms
  proof (induction ps arbitrary: m)
    case Nil
    then show ?case by simp
  next
    case (Cons q qs)
    from Cons.prems(1) obtain m1 where m1: "add_prop c b tc q m = Some m1"
      "for_each (add_prop c b tc) qs m1 = Some m'"
      by (auto split: option.splits)
    have k: "dict_in v (properties m1) = dict_in v (properties m)" for v
      using add_prop_frame(5) [OF m1(1)] by (simp add: dict_in_def)
    show ?case
    proof (cases "prop_value q = prop_value p")
      case True
      have "\<exists>tests. dict_get (prop_value p) (properties m1) = Some tests \<and> tc \<in> set tests"
        using Cons.prems(3) True by (auto simp: add_prop_properties [OF m1(1)] dict_in_get)
      then show ?thesis by (rule keep [OF m1(2)])
    next
      case False
      then have "p \<in> set qs" using Cons.prems(2) by auto
      then show ?thesis using Cons.IH [OF m1(2)] Cons.prems(3) by (simp add: k)
    qed
  qed
qed

section \<open>One case\<close>

lemma note_casename_effect:
  assumes "dict_in c (casenames m)"
  shows "\<exists>m'. note_casename c b m = Some m' \<and> keys (casenames m') = keys (casenames m)
     \<and> cases m' = cases m \<and> reports m' = reports m \<and> classes m' = classes m
     \<and> result_stats m' = result_stats m \<and> properties m' = properties m \<and> stdout m' = stdout m"
proof -
  from assms obtain names where n: "dict_get c (casenames m) = Some names"
    by (auto simp: dict_in_get)
  show ?thesis
    using n assms by (auto simp: note_casename_def keys_dict_set dict_in_def)
qed

lemma count_outcome_fields [simp]:
  "result_stats (count_outcome tc m) = bump (case_outcome tc) (result_stats m)"
  "cases (count_outcome tc m) = cases m" "reports (count_outcome tc m) = reports m"
  "classes (count_outcome tc m) = classes m" "casenames (count_outcome tc m) = casenames m"
  "properties (count_outcome tc m) = properties m" "stdout (count_outcome tc m) = stdout m"
  by (simp_all add: count_outcome_def bump_def Let_def)

lemma count_outcome_obs [simp]:
  "cases_at (count_outcome tc m) = cases_at m" "case_ready (count_outcome tc m) = case_ready m"
  by (simp_all add: cases_at_def case_ready_def fun_eq_iff)

lemma cases_at_cong: "cases m' = cases m \<Longrightarrow> cases_at m' = cases_at m"
  by (simp add: cases_at_def fun_eq_iff)

lemma case_ready_cong: "cases m' = cases m \<Longrightarrow> case_ready m' = case_ready m"
  by (simp add: case_ready_def fun_eq_iff)

text \<open>Everything one needs to know about the state after a case.\<close>

lemma add_case_effect:
  assumes "dict_in c (casenames m)"
  shows "\<exists>m'. add_case fn c tc m = Some m'
     \<and> keys (casenames m') = keys (casenames m)
     \<and> reports m' = reports m \<and> classes m' = classes m
     \<and> keys (properties m') = keys (properties m)
     \<and> result_stats m' = bump (case_outcome tc) (result_stats m)
     \<and> stdout m' = stdout m @ map (\<lambda>p. warning (prop_value p))
          (filter (\<lambda>p. \<not> dict_in (prop_value p) (properties m)) (case_properties tc))
     \<and> (\<forall>c' b' k. cases_at m' c' b' k =
          (if c' = c \<and> b' = strip (case_basename tc)
              \<and> (k = fn \<or> (k \<in> prop_value ` set (case_properties tc) \<and> dict_in k (properties m)))
           then Some tc else cases_at m c' b' k))
     \<and> (\<forall>p \<in> set (case_properties tc). dict_in (prop_value p) (properties m) \<longrightarrow>
          (\<exists>tests. dict_get (prop_value p) (properties m') = Some tests \<and> tc \<in> set tests))"
proof -
  define b where "b = strip (case_basename tc)"
  from note_casename_effect [OF assms, of b] obtain m1 where
    m1: "note_casename c b m = Some m1" "keys (casenames m1) = keys (casenames m)"
      "cases m1 = cases m" "reports m1 = reports m" "classes m1 = classes m"
      "result_stats m1 = result_stats m" "properties m1 = properties m" "stdout m1 = stdout m"
    by blast
  from ensure_case_effect [of c b m1] obtain m2 where
    m2: "ensure_case c b m1 = Some m2" "case_ready m2 c b"
      "\<And>c' b' k'. cases_at m2 c' b' k' = cases_at m1 c' b' k'"
      "reports m2 = reports m1" "classes m2 = classes m1" "casenames m2 = casenames m1"
      "result_stats m2 = result_stats m1" "properties m2 = properties m1" "stdout m2 = stdout m1"
    by blast
  from store_case_total [OF m2(2), of fn tc] obtain m3 where
    m3: "store_case c b fn tc m2 = Some m3" by blast
  note fr3 = store_case_frame [OF m3]
  have rd3: "case_ready m3 c b" by (rule store_case_ready [OF m3 m2(2)])
  define m4 where "m4 = count_outcome tc m3"
  have rd4: "case_ready m4 c b" using rd3 by (simp add: m4_def)
  from add_props_total [OF rd4, of tc "case_properties tc"] obtain m' where
    m': "for_each (add_prop c b tc) (case_properties tc) m4 = Some m'" by blast
  note fr5 = add_props_frame [OF m']
  have eq: "add_case fn c tc m = Some m'"
    using m1(1) m2(1) m3 m' by (simp add: add_case_def b_def [symmetric] m4_def)
  have p4: "properties m4 = properties m"
    by (simp add: m4_def fr3 m2 m1)
  have at4: "cases_at m4 c' b' k = (if c' = c \<and> b' = b \<and> k = fn then Some tc else cases_at m c' b' k)"
    for c' b' k
    using store_case_cases_at [OF m3, of c' b' k] m2(3) [of c' b' k] cases_at_cong [OF m1(3)]
    by (simp add: m4_def)
  have at: "cases_at m' c' b' k =
          (if c' = c \<and> b' = b
              \<and> (k = fn \<or> (k \<in> prop_value ` set (case_properties tc) \<and> dict_in k (properties m)))
           then Some tc else cases_at m c' b' k)" for c' b' k
    using add_props_cases_at [OF m', of c' b' k] at4 [of c' b' k] by (auto simp: p4)
  have pr: "\<exists>tests. dict_get (prop_value p) (properties m') = Some tests \<and> tc \<in> set tests"
    if "p \<in> set (case_properties tc)" "dict_in (prop_value p) (properties m)" for p
    by (rule add_props_properties [OF m' that(1)]) (simp add: p4 that(2))
  have "keys (casenames m') = keys (casenames m)"
    by (simp add: fr5 m4_def fr3 m2 m1)
  moreover have "reports m' = reports m" "classes m' = classes m"
    by (simp_all add: fr5 m4_def fr3 m2 m1)
  moreover have "keys (properties m') = keys (properties m)"
    by (simp add: fr5 p4)
  moreover have "result_stats m' = bump (case_outcome tc) (result_stats m)"
    by (simp add: fr5 m4_def fr3 m2 m1)
  moreover have "stdout m' = stdout m @ map (\<lambda>p. warning (prop_value p))
          (filter (\<lambda>p. \<not> dict_in (prop_value p) (properties m)) (case_properties tc))"
    by (simp add: add_props_stdout [OF m'] p4) (simp add: m4_def fr3 m2 m1)
  ultimately show ?thesis
    using eq at pr unfolding b_def by blast
qed

lemma for_each_fold_inv:
  assumes "\<And>x s. x \<in> set xs \<Longrightarrow> I s \<Longrightarrow>
      \<exists>s'. body x s = Some s' \<and> I s' \<and> obs s' = fold step (g x) (obs s)"
    and "I s"
  shows "\<exists>s'. for_each body xs s = Some s' \<and> I s' \<and> obs s' = fold step (concat (map g xs)) (obs s)"
  using assms
proof (induction xs arbitrary: s)
  case Nil
  then show ?case by simp
next
  case (Cons x xs)
  from Cons.prems(1) [of x s] Cons.prems(2) obtain s1 where
    s1: "body x s = Some s1" "I s1" "obs s1 = fold step (g x) (obs s)" by auto
  have "\<exists>s'. for_each body xs s1 = Some s' \<and> I s' \<and> obs s' = fold step (concat (map g xs)) (obs s1)"
    by (rule Cons.IH) (use Cons.prems(1) s1(2) in auto)
  with s1 show ?case by auto
qed

lemma for_each_same_inv:
  assumes "\<And>x s. x \<in> set xs \<Longrightarrow> I s \<Longrightarrow> \<exists>s'. body x s = Some s' \<and> I s' \<and> obs s' = obs s"
    and "I s"
  shows "\<exists>s'. for_each body xs s = Some s' \<and> I s' \<and> obs s' = obs s"
  using assms
proof (induction xs arbitrary: s)
  case Nil
  then show ?case by simp
next
  case (Cons x xs)
  from Cons.prems(1) [of x s] Cons.prems(2) obtain s1 where
    s1: "body x s = Some s1" "I s1" "obs s1 = obs s" by auto
  have "\<exists>s'. for_each body xs s1 = Some s' \<and> I s' \<and> obs s' = obs s1"
    by (rule Cons.IH) (use Cons.prems(1) s1(2) in auto)
  with s1 show ?case by auto
qed

section \<open>One class\<close>

lemma classes_at_fields [simp]:
  "classes_at (m\<lparr>properties := x\<rparr>) = classes_at m"
  "classes_at (m\<lparr>stdout := y\<rparr>) = classes_at m"
  "classes_at (m\<lparr>result_stats := z\<rparr>) = classes_at m"
  "classes_at (m\<lparr>casenames := u\<rparr>) = classes_at m"
  "classes_at (m\<lparr>cases := w\<rparr>) = classes_at m"
  "classes_at (m\<lparr>reports := r\<rparr>) = classes_at m"
  by (simp_all add: classes_at_def fun_eq_iff)

lemma classes_at_cong: "classes m' = classes m \<Longrightarrow> classes_at m' = classes_at m"
  by (simp add: classes_at_def fun_eq_iff)

lemma ensure_class_effect:
  "dict_in c (classes (ensure_class c m))" "dict_in c (casenames (ensure_class c m))"
  "classes_at (ensure_class c m) c' k = classes_at m c' k"
  "cases (ensure_class c m) = cases m" "reports (ensure_class c m) = reports m"
  "result_stats (ensure_class c m) = result_stats m"
  "properties (ensure_class c m) = properties m" "stdout (ensure_class c m) = stdout m"
proof -
  show "dict_in c (classes (ensure_class c m))" "dict_in c (casenames (ensure_class c m))"
    by (simp_all add: ensure_class_def Let_def dict_in_dict_set)
  show "cases (ensure_class c m) = cases m" "reports (ensure_class c m) = reports m"
    "result_stats (ensure_class c m) = result_stats m"
    "properties (ensure_class c m) = properties m" "stdout (ensure_class c m) = stdout m"
    by (simp_all add: ensure_class_def Let_def)
  have "classes_at (m\<lparr>classes := dict_set c [] (classes m)\<rparr>) c' k = classes_at m c' k"
    if "\<not> dict_in c (classes m)"
  proof -
    have "dict_get c (classes m) = None" using that by (simp add: dict_in_get)
    then show ?thesis by (cases "c' = c") (simp_all add: classes_at_def dict_get_dict_set)
  qed
  then show "classes_at (ensure_class c m) c' k = classes_at m c' k"
    by (simp add: ensure_class_def Let_def)
qed

lemma store_class_effect:
  assumes "dict_get c (suite_classes s) = Some cls" "dict_in c (classes m)"
  shows "\<exists>m'. store_class fn s c m = Some m'
     \<and> (\<forall>c' k. classes_at m' c' k = (if c' = c \<and> k = fn then Some cls else classes_at m c' k))
     \<and> cases m' = cases m \<and> reports m' = reports m \<and> casenames m' = casenames m
     \<and> result_stats m' = result_stats m \<and> properties m' = properties m \<and> stdout m' = stdout m"
proof -
  from assms(2) obtain by_file where bf: "dict_get c (classes m) = Some by_file"
    by (auto simp: dict_in_get)
  have at: "classes_at (m\<lparr>classes := dict_set c (dict_set fn cls by_file) (classes m)\<rparr>) c' k
     = (if c' = c \<and> k = fn then Some cls else classes_at m c' k)" for c' k
    using bf by (cases "c' = c") (simp_all add: classes_at_def dict_get_dict_set)
  show ?thesis
    using assms(1) bf at by (simp add: store_class_def)
qed

lemma add_case_stats:
  assumes "dict_in c (casenames m)"
  shows "\<exists>m'. add_case fn c tc m = Some m' \<and> dict_in c (casenames m')
     \<and> result_stats m' = fold count_case [(c, tc)] (result_stats m)"
proof -
  from add_case_effect [OF assms, of fn tc] obtain m' where
    m': "add_case fn c tc m = Some m'" "keys (casenames m') = keys (casenames m)"
    "result_stats m' = bump (case_outcome tc) (result_stats m)"
    by blast
  have "dict_in c (casenames m')" using assms m'(2) by (simp add: dict_in_def)
  then show ?thesis using m'(1,3) by (simp add: count_case_def)
qed

lemma add_case_written:
  assumes "dict_in c (casenames m)"
  shows "\<exists>m'. add_case fn c tc m = Some m' \<and> dict_in c (casenames m')
     \<and> cases_at m' c' b' fn = fold (write_case c' b') [(c, tc)] (cases_at m c' b' fn)"
proof -
  from add_case_effect [OF assms, of fn tc] obtain m' where
    m': "add_case fn c tc m = Some m'" "keys (casenames m') = keys (casenames m)"
    "\<forall>c' b' k. cases_at m' c' b' k =
          (if c' = c \<and> b' = strip (case_basename tc)
              \<and> (k = fn \<or> (k \<in> prop_value ` set (case_properties tc) \<and> dict_in k (properties m)))
           then Some tc else cases_at m c' b' k)"
    by blast
  have "dict_in c (casenames m')" using assms m'(2) by (simp add: dict_in_def)
  moreover have "cases_at m' c' b' fn = fold (write_case c' b') [(c, tc)] (cases_at m c' b' fn)"
    using m'(3) by (auto simp: write_case_def)
  ultimately show ?thesis using m'(1) by blast
qed

lemma add_case_same:
  assumes "dict_in c (casenames m)"
  shows "\<exists>m'. add_case fn c tc m = Some m' \<and> dict_in c (casenames m')
     \<and> (reports m', classes m', keys (properties m')) = (reports m, classes m, keys (properties m))"
proof -
  from add_case_effect [OF assms, of fn tc] obtain m' where
    m': "add_case fn c tc m = Some m'" "keys (casenames m') = keys (casenames m)"
    "reports m' = reports m" "classes m' = classes m" "keys (properties m') = keys (properties m)"
    by blast
  have "dict_in c (casenames m')" using assms m'(2) by (simp add: dict_in_def)
  then show ?thesis using m'(1,3,4,5) by simp
qed

lemma add_class_effect:
  assumes "dict_get c (suite_classes s) = Some cls"
  shows "\<exists>m'. add_class fn s c m = Some m'
     \<and> reports m' = reports m
     \<and> keys (properties m') = keys (properties m)
     \<and> result_stats m' = fold count_case (map (Pair c) (class_cases cls)) (result_stats m)
     \<and> (\<forall>c' b'. cases_at m' c' b' fn =
           fold (write_case c' b') (map (Pair c) (class_cases cls)) (cases_at m c' b' fn))
     \<and> (\<forall>c' k. classes_at m' c' k = (if c' = c \<and> k = fn then Some cls else classes_at m c' k))"
proof -
  define m1 where "m1 = ensure_class c m"
  note e1 = ensure_class_effect [of c m, folded m1_def]
  from store_class_effect [OF assms e1(1), of fn] obtain m2 where
    m2: "store_class fn s c m1 = Some m2"
      "\<And>c' k. classes_at m2 c' k = (if c' = c \<and> k = fn then Some cls else classes_at m1 c' k)"
      "cases m2 = cases m1" "reports m2 = reports m1" "casenames m2 = casenames m1"
      "result_stats m2 = result_stats m1" "properties m2 = properties m1" "stdout m2 = stdout m1"
    by blast
  have st: "classes_at m2 c fn = Some cls" by (simp add: m2(2))
  have rd: "dict_in c (casenames m2)" using e1(2) by (simp add: m2)
  let ?loop = "for_each (add_case fn c) (class_cases cls) m2"
  let ?I = "\<lambda>m::matrix. dict_in c (casenames m)"
  have cc: "concat (map (\<lambda>tc. [(c, tc)]) tcs) = map (Pair c) tcs" for tcs :: "testcase list"
    by (induction tcs) simp_all
  have "\<exists>s'. ?loop = Some s' \<and> ?I s' \<and> result_stats s' =
      fold count_case (concat (map (\<lambda>tc. [(c, tc)]) (class_cases cls))) (result_stats m2)"
  proof (rule for_each_fold_inv [where I = ?I and obs = result_stats])
    show "?I m2" by (rule rd)
  next
    fix x and s :: matrix assume "?I s"
    then show "\<exists>s'. add_case fn c x s = Some s' \<and> ?I s' \<and>
        result_stats s' = fold count_case [(c, x)] (result_stats s)"
      by (rule add_case_stats)
  qed
  then obtain m' where m': "?loop = Some m'"
    and stats: "result_stats m' = fold count_case (map (Pair c) (class_cases cls)) (result_stats m2)"
    unfolding cc by (elim exE conjE)
  have written: "cases_at m' c' b' fn =
      fold (write_case c' b') (map (Pair c) (class_cases cls)) (cases_at m2 c' b' fn)" for c' b'
  proof -
    have "\<exists>s'. ?loop = Some s' \<and> ?I s' \<and> cases_at s' c' b' fn =
      fold (write_case c' b') (concat (map (\<lambda>tc. [(c, tc)]) (class_cases cls))) (cases_at m2 c' b' fn)"
    proof (rule for_each_fold_inv [where I = ?I and obs = "\<lambda>m. cases_at m c' b' fn"])
      show "?I m2" by (rule rd)
    next
      fix x and s :: matrix assume "?I s"
      then show "\<exists>s'. add_case fn c x s = Some s' \<and> ?I s' \<and>
          cases_at s' c' b' fn = fold (write_case c' b') [(c, x)] (cases_at s c' b' fn)"
        by (rule add_case_written)
    qed
    then show ?thesis unfolding cc using m' by auto
  qed
  have same: "(reports m', classes m', keys (properties m')) = (reports m2, classes m2, keys (properties m2))"
  proof -
    have "\<exists>s'. ?loop = Some s' \<and> ?I s' \<and> (reports s', classes s', keys (properties s')) =
      (reports m2, classes m2, keys (properties m2))"
    proof (rule for_each_same_inv [where I = ?I and obs = "\<lambda>m::matrix. (reports m, classes m, keys (properties m))"])
      show "?I m2" by (rule rd)
    next
      fix x and s :: matrix assume "?I s"
      then show "\<exists>s'. add_case fn c x s = Some s' \<and> ?I s' \<and>
          (reports s', classes s', keys (properties s')) = (reports s, classes s, keys (properties s))"
        by (rule add_case_same)
    qed
    then show ?thesis using m' by auto
  qed
  have eq: "add_class fn s c m = Some m'"
    using m2(1) st m' by (simp add: add_class_def m1_def)
  have a1: "reports m' = reports m" using same by (simp add: m2 e1)
  have a2: "keys (properties m') = keys (properties m)" using same by (simp add: m2 e1)
  have a3: "result_stats m' = fold count_case (map (Pair c) (class_cases cls)) (result_stats m)"
    using stats by (simp add: m2 e1)
  have a4: "cases_at m' c' b' fn =
           fold (write_case c' b') (map (Pair c) (class_cases cls)) (cases_at m c' b' fn)" for c' b'
    using written [of c' b'] cases_at_cong [OF m2(3)] cases_at_cong [OF e1(4)] by simp
  have a5: "classes_at m' c' k = (if c' = c \<and> k = fn then Some cls else classes_at m c' k)" for c' k
  proof -
    have "classes m' = classes m2" using same by simp
    from classes_at_cong [OF this] have "classes_at m' c' k = classes_at m2 c' k" by simp
    then show ?thesis by (simp add: m2(2) e1(3))
  qed
  show ?thesis
    by (intro exI [of _ m'] conjI allI) (rule eq a1 a2 a3 a4 a5)+
qed

section \<open>One suite\<close>

lemma add_suite_effect:
  "\<exists>m'. add_suite fn s m = Some m'
     \<and> reports m' = reports m
     \<and> keys (properties m') = keys (properties m)
     \<and> result_stats m' = fold count_case (suite_cases s) (result_stats m)
     \<and> (\<forall>c' b'. cases_at m' c' b' fn = fold (write_case c' b') (suite_cases s) (cases_at m c' b' fn))
     \<and> (\<forall>c'. classes_at m' c' fn = fold (write_class c') (suite_items s) (classes_at m c' fn))"
proof -
  let ?ks = "keys (suite_classes s)"
  let ?loop = "for_each (add_class fn s) ?ks m"
  let ?I = "\<lambda>m::matrix. True"
  let ?g = "\<lambda>k. case dict_get k (suite_classes s) of None \<Rightarrow> [] | Some cls \<Rightarrow> map (Pair k) (class_cases cls)"
  let ?h = "\<lambda>k. case dict_get k (suite_classes s) of None \<Rightarrow> [] | Some cls \<Rightarrow> [(k, cls)]"
  have known: "\<exists>cls. dict_get k (suite_classes s) = Some cls" if "k \<in> set ?ks" for k
    using that dict_in_get [of k "suite_classes s"] by (auto simp: dict_in_def)
  have "\<exists>s'. ?loop = Some s' \<and> ?I s' \<and> result_stats s' =
      fold count_case (concat (map ?g ?ks)) (result_stats m)"
  proof (rule for_each_fold_inv [where I = ?I and obs = result_stats])
    show "?I m" by simp
  next
    fix k and st :: matrix assume "k \<in> set ?ks"
    then obtain cls where cls: "dict_get k (suite_classes s) = Some cls" using known by blast
    from add_class_effect [OF cls, of fn st] obtain s' where
      "add_class fn s k st = Some s'"
      "result_stats s' = fold count_case (map (Pair k) (class_cases cls)) (result_stats st)"
      by (elim exE conjE)
    then show "\<exists>s'. add_class fn s k st = Some s' \<and> ?I s' \<and>
        result_stats s' = fold count_case (?g k) (result_stats st)"
      by (simp add: cls)
  qed
  then obtain m' where m': "?loop = Some m'"
    and a3: "result_stats m' = fold count_case (suite_cases s) (result_stats m)"
    unfolding suite_cases_def by (elim exE conjE)
  have a4: "cases_at m' c' b' fn = fold (write_case c' b') (suite_cases s) (cases_at m c' b' fn)"
    for c' b'
  proof -
    have "\<exists>s'. ?loop = Some s' \<and> ?I s' \<and> cases_at s' c' b' fn =
      fold (write_case c' b') (concat (map ?g ?ks)) (cases_at m c' b' fn)"
    proof (rule for_each_fold_inv [where I = ?I and obs = "\<lambda>m. cases_at m c' b' fn"])
      show "?I m" by simp
    next
      fix k and st :: matrix assume "k \<in> set ?ks"
      then obtain cls where cls: "dict_get k (suite_classes s) = Some cls" using known by blast
      from add_class_effect [OF cls, of fn st] obtain s' where
        "add_class fn s k st = Some s'"
        "\<forall>c' b'. cases_at s' c' b' fn =
           fold (write_case c' b') (map (Pair k) (class_cases cls)) (cases_at st c' b' fn)"
        by (elim exE conjE)
      then show "\<exists>s'. add_class fn s k st = Some s' \<and> ?I s' \<and>
          cases_at s' c' b' fn = fold (write_case c' b') (?g k) (cases_at st c' b' fn)"
        by (simp add: cls)
    qed
    then show ?thesis unfolding suite_cases_def using m' by auto
  qed
  have a5: "classes_at m' c' fn = fold (write_class c') (suite_items s) (classes_at m c' fn)" for c'
  proof -
    have "\<exists>s'. ?loop = Some s' \<and> ?I s' \<and> classes_at s' c' fn =
      fold (write_class c') (concat (map ?h ?ks)) (classes_at m c' fn)"
    proof (rule for_each_fold_inv [where I = ?I and obs = "\<lambda>m. classes_at m c' fn"])
      show "?I m" by simp
    next
      fix k and st :: matrix assume "k \<in> set ?ks"
      then obtain cls where cls: "dict_get k (suite_classes s) = Some cls" using known by blast
      from add_class_effect [OF cls, of fn st] obtain s' where
        "add_class fn s k st = Some s'"
        "\<forall>c' k'. classes_at s' c' k' = (if c' = k \<and> k' = fn then Some cls else classes_at st c' k')"
        by (elim exE conjE)
      then show "\<exists>s'. add_class fn s k st = Some s' \<and> ?I s' \<and>
          classes_at s' c' fn = fold (write_class c') (?h k) (classes_at st c' fn)"
        by (simp add: cls write_class_def)
    qed
    then show ?thesis unfolding suite_items_def using m' by auto
  qed
  have same: "(reports m', keys (properties m')) = (reports m, keys (properties m))"
  proof -
    have "\<exists>s'. ?loop = Some s' \<and> ?I s' \<and> (reports s', keys (properties s')) =
      (reports m, keys (properties m))"
    proof (rule for_each_same_inv [where I = ?I and obs = "\<lambda>m::matrix. (reports m, keys (properties m))"])
      show "?I m" by simp
    next
      fix k and st :: matrix assume "k \<in> set ?ks"
      then obtain cls where cls: "dict_get k (suite_classes s) = Some cls" using known by blast
      from add_class_effect [OF cls, of fn st] obtain s' where
        "add_class fn s k st = Some s'" "reports s' = reports st"
        "keys (properties s') = keys (properties st)"
        by (elim exE conjE)
      then show "\<exists>s'. add_class fn s k st = Some s' \<and> ?I s' \<and>
          (reports s', keys (properties s')) = (reports st, keys (properties st))"
        by simp
    qed
    then show ?thesis using m' by auto
  qed
  have eq: "add_suite fn s m = Some m'" using m' by (simp add: add_suite_def)
  have a1: "reports m' = reports m" and a2: "keys (properties m') = keys (properties m)"
    using same by simp_all
  show ?thesis
    by (intro exI [of _ m'] conjI allI) (rule eq a1 a2 a3 a4 a5)+
qed

section \<open>One report\<close>

lemma add_report_effect:
  "\<exists>m'. add_report path parsed m = Some m'
     \<and> reports m' = dict_set (os_path_basename path) parsed (reports m)
     \<and> keys (properties m') = keys (properties m)
     \<and> result_stats m' = fold count_case (junit_cases parsed) (result_stats m)
     \<and> (\<forall>c b. cases_at m' c b (os_path_basename path) =
           fold (write_case c b) (junit_cases parsed) (cases_at m c b (os_path_basename path)))
     \<and> (\<forall>c. classes_at m' c (os_path_basename path) =
           fold (write_class c) (junit_items parsed) (classes_at m c (os_path_basename path)))"
proof -
  define fn where "fn = os_path_basename path"
  define m0 where "m0 = m\<lparr>reports := dict_set fn parsed (reports m)\<rparr>"
  let ?ss = "junit_suites parsed"
  let ?loop = "for_each (add_suite fn) ?ss m0"
  let ?I = "\<lambda>m::matrix. True"
  have "\<exists>s'. ?loop = Some s' \<and> ?I s' \<and> result_stats s' =
      fold count_case (concat (map suite_cases ?ss)) (result_stats m0)"
  proof (rule for_each_fold_inv [where I = ?I and obs = result_stats])
    show "?I m0" by simp
  next
    fix s and st :: matrix
    from add_suite_effect [of fn s st] obtain s' where
      "add_suite fn s st = Some s'"
      "result_stats s' = fold count_case (suite_cases s) (result_stats st)"
      by (elim exE conjE)
    then show "\<exists>s'. add_suite fn s st = Some s' \<and> ?I s' \<and>
        result_stats s' = fold count_case (suite_cases s) (result_stats st)"
      by simp
  qed
  then obtain m' where m': "?loop = Some m'"
    and a3: "result_stats m' = fold count_case (junit_cases parsed) (result_stats m0)"
    unfolding junit_cases_def by (elim exE conjE)
  have a4: "cases_at m' c b fn = fold (write_case c b) (junit_cases parsed) (cases_at m0 c b fn)"
    for c b
  proof -
    have "\<exists>s'. ?loop = Some s' \<and> ?I s' \<and> cases_at s' c b fn =
      fold (write_case c b) (concat (map suite_cases ?ss)) (cases_at m0 c b fn)"
    proof (rule for_each_fold_inv [where I = ?I and obs = "\<lambda>m. cases_at m c b fn"])
      show "?I m0" by simp
    next
      fix s and st :: matrix
      from add_suite_effect [of fn s st] obtain s' where
        "add_suite fn s st = Some s'"
        "\<forall>c' b'. cases_at s' c' b' fn = fold (write_case c' b') (suite_cases s) (cases_at st c' b' fn)"
        by (elim exE conjE)
      then show "\<exists>s'. add_suite fn s st = Some s' \<and> ?I s' \<and>
          cases_at s' c b fn = fold (write_case c b) (suite_cases s) (cases_at st c b fn)"
        by simp
    qed
    then show ?thesis unfolding junit_cases_def using m' by auto
  qed
  have a5: "classes_at m' c fn = fold (write_class c) (junit_items parsed) (classes_at m0 c fn)" for c
  proof -
    have "\<exists>s'. ?loop = Some s' \<and> ?I s' \<and> classes_at s' c fn =
      fold (write_class c) (concat (map suite_items ?ss)) (classes_at m0 c fn)"
    proof (rule for_each_fold_inv [where I = ?I and obs = "\<lambda>m. classes_at m c fn"])
      show "?I m0" by simp
    next
      fix s and st :: matrix
      from add_suite_effect [of fn s st] obtain s' where
        "add_suite fn s st = Some s'"
        "\<forall>c'. classes_at s' c' fn = fold (write_class c') (suite_items s) (classes_at st c' fn)"
        by (elim exE conjE)
      then show "\<exists>s'. add_suite fn s st = Some s' \<and> ?I s' \<and>
          classes_at s' c fn = fold (write_class c) (suite_items s) (classes_at st c fn)"
        by simp
    qed
    then show ?thesis unfolding junit_items_def using m' by auto
  qed
  have same: "(reports m', keys (properties m')) = (reports m0, keys (properties m0))"
  proof -
    have "\<exists>s'. ?loop = Some s' \<and> ?I s' \<and> (reports s', keys (properties s')) =
      (reports m0, keys (properties m0))"
    proof (rule for_each_same_inv [where I = ?I and obs = "\<lambda>m::matrix. (reports m, keys (properties m))"])
      show "?I m0" by simp
    next
      fix s and st :: matrix
      from add_suite_effect [of fn s st] obtain s' where
        "add_suite fn s st = Some s'" "reports s' = reports st"
        "keys (properties s') = keys (properties st)"
        by (elim exE conjE)
      then show "\<exists>s'. add_suite fn s st = Some s' \<and> ?I s' \<and>
          (reports s', keys (properties s')) = (reports st, keys (properties st))"
        by simp
    qed
    then show ?thesis using m' by auto
  qed
  have eq: "add_report path parsed m = Some m'"
    using m' by (simp add: add_report_def fn_def m0_def Let_def)
  have b1: "reports m' = dict_set fn parsed (reports m)" using same by (simp add: m0_def)
  have b2: "keys (properties m') = keys (properties m)" using same by (simp add: m0_def)
  have b3: "result_stats m' = fold count_case (junit_cases parsed) (result_stats m)"
    using a3 by (simp add: m0_def)
  have b4: "cases_at m' c b fn = fold (write_case c b) (junit_cases parsed) (cases_at m c b fn)" for c b
    using a4 [of c b] by (simp add: m0_def)
  have b5: "classes_at m' c fn = fold (write_class c) (junit_items parsed) (classes_at m c fn)" for c
    using a5 [of c] by (simp add: m0_def)
  show ?thesis
    unfolding fn_def [symmetric]
    by (intro exI [of _ m'] conjI allI) (rule eq b1 b2 b3 b4 b5)+
qed

section \<open>A run\<close>

lemma add_reports_effect:
  "\<exists>m'. add_reports rs m = Some m'
     \<and> keys (properties m') = keys (properties m)
     \<and> result_stats m' = fold count_case (concat (map (\<lambda>r. junit_cases (snd r)) rs)) (result_stats m)"
proof -
  let ?body = "\<lambda>r. add_report (fst r) (snd r)"
  let ?loop = "for_each ?body rs m"
  let ?I = "\<lambda>m::matrix. True"
  have "\<exists>s'. ?loop = Some s' \<and> ?I s' \<and> result_stats s' =
      fold count_case (concat (map (\<lambda>r. junit_cases (snd r)) rs)) (result_stats m)"
  proof (rule for_each_fold_inv [where I = ?I and obs = result_stats])
    show "?I m" by simp
  next
    fix r :: "string \<times> junit" and st :: matrix
    from add_report_effect [of "fst r" "snd r" st] obtain s' where
      "add_report (fst r) (snd r) st = Some s'"
      "result_stats s' = fold count_case (junit_cases (snd r)) (result_stats st)"
      by (elim exE conjE)
    then show "\<exists>s'. ?body r st = Some s' \<and> ?I s' \<and>
        result_stats s' = fold count_case (junit_cases (snd r)) (result_stats st)"
      by simp
  qed
  then obtain m' where m': "?loop = Some m'"
    and a3: "result_stats m' = fold count_case (concat (map (\<lambda>r. junit_cases (snd r)) rs)) (result_stats m)"
    by (elim exE conjE)
  have same: "keys (properties m') = keys (properties m)"
  proof -
    have "\<exists>s'. ?loop = Some s' \<and> ?I s' \<and> keys (properties s') = keys (properties m)"
    proof (rule for_each_same_inv [where I = ?I and obs = "\<lambda>m::matrix. keys (properties m)"])
      show "?I m" by simp
    next
      fix r :: "string \<times> junit" and st :: matrix
      from add_report_effect [of "fst r" "snd r" st] obtain s' where
        "add_report (fst r) (snd r) st = Some s'"
        "keys (properties s') = keys (properties st)"
        by (elim exE conjE)
      then show "\<exists>s'. ?body r st = Some s' \<and> ?I s' \<and>
          keys (properties s') = keys (properties st)"
        by simp
    qed
    then show ?thesis using m' by auto
  qed
  show ?thesis
    using m' a3 same by (simp add: add_reports_def)
qed

section \<open>Counting\<close>

lemma stat_fold_count_case:
  "dict_get_default outcome 0 (fold count_case es d) =
     dict_get_default outcome 0 d + int (length (filter (\<lambda>e. case_outcome (snd e) = outcome) es))"
  by (induction es arbitrary: d)
     (simp_all add: count_case_def bump_def dict_get_default_dict_set)

lemma total_fold_count_case:
  "sum_list (map snd (fold count_case es d)) = sum_list (map snd d) + int (length es)"
  by (induction es arbitrary: d) (simp_all add: count_case_def bump_def sum_dict_set)

lemma keys_fold_count_case:
  "set (keys (fold count_case es d)) = set (keys d) \<union> (\<lambda>e. case_outcome (snd e)) ` set es"
  by (induction es arbitrary: d) (auto simp: count_case_def bump_def keys_dict_set)

lemma dict_get_by_default:
  "dict_get k d = (if dict_in k d then Some (dict_get_default k x d) else None)"
  by (auto simp: dict_in_get dict_get_default_def dict_get_def)

lemma map_of_fold_count_case:
  "dict_get outcome (fold count_case es d) =
     (if outcome \<in> set (keys d) \<or> outcome \<in> (\<lambda>e. case_outcome (snd e)) ` set es
      then Some (dict_get_default outcome 0 d
                  + int (length (filter (\<lambda>e. case_outcome (snd e) = outcome) es)))
      else None)"
  unfolding dict_get_by_default [of outcome "fold count_case es d" 0]
  by (simp add: dict_in_def keys_fold_count_case stat_fold_count_case)

section \<open>Writing twice\<close>

lemma write_case_hit:
  "fst e = c \<and> strip (case_basename (snd e)) = b \<Longrightarrow> write_case c b e cur = Some (snd e)"
  by (simp add: write_case_def)

lemma write_case_miss:
  "\<not> (fst e = c \<and> strip (case_basename (snd e)) = b) \<Longrightarrow> write_case c b e cur = cur"
  by (auto simp: write_case_def)

lemma write_class_hit: "fst e = c \<Longrightarrow> write_class c e cur = Some (snd e)"
  by (simp add: write_class_def)

lemma write_class_miss: "fst e \<noteq> c \<Longrightarrow> write_class c e cur = cur"
  by (simp add: write_class_def)

lemma fold_write_case_absorb:
  "fold (write_case c b) es cur = cur \<or> (\<forall>cur'. fold (write_case c b) es cur' = fold (write_case c b) es cur)"
proof (induction es arbitrary: cur)
  case Nil
  then show ?case by simp
next
  case (Cons e es)
  show ?case
  proof (cases "fst e = c \<and> strip (case_basename (snd e)) = b")
    case True
    then show ?thesis by (simp add: write_case_hit)
  next
    case False
    then show ?thesis using Cons.IH [of cur] by (simp add: write_case_miss)
  qed
qed

lemma fold_write_case_twice:
  "fold (write_case c b) es (fold (write_case c b) es cur) = fold (write_case c b) es cur"
  using fold_write_case_absorb [of c b es cur] fold_write_case_absorb [of c b es "fold (write_case c b) es cur"]
  by metis

lemma fold_write_class_absorb:
  "fold (write_class c) es cur = cur \<or> (\<forall>cur'. fold (write_class c) es cur' = fold (write_class c) es cur)"
proof (induction es arbitrary: cur)
  case Nil
  then show ?case by simp
next
  case (Cons e es)
  show ?case
  proof (cases "fst e = c")
    case True
    then show ?thesis by (simp add: write_class_hit)
  next
    case False
    then show ?thesis using Cons.IH [of cur] by (simp add: write_class_miss)
  qed
qed

lemma fold_write_class_twice:
  "fold (write_class c) es (fold (write_class c) es cur) = fold (write_class c) es cur"
  using fold_write_class_absorb [of c es cur] fold_write_class_absorb [of c es "fold (write_class c) es cur"]
  by metis

lemma items_of_distinct:
  assumes "distinct (map fst d)" and "\<And>k. k \<in> set (map fst d) \<Longrightarrow> f k = map_of d k"
  shows "concat (map (\<lambda>k. case f k of None \<Rightarrow> [] | Some v \<Rightarrow> [(k, v)]) (map fst d)) = d"
  using assms
proof (induction d)
  case Nil
  then show ?case by simp
next
  case (Cons e d)
  obtain a b where e: "e = (a, b)" by (cases e)
  have fa: "f a = Some b" using Cons.prems(2) [of a] by (simp add: e)
  have "f k = map_of d k" if "k \<in> set (map fst d)" for k
  proof -
    have "k \<noteq> a" using that Cons.prems(1) by (auto simp: e)
    then show ?thesis using Cons.prems(2) [of k] that by (simp add: e)
  qed
  then have "concat (map (\<lambda>k. case f k of None \<Rightarrow> [] | Some v \<Rightarrow> [(k, v)]) (map fst d)) = d"
    using Cons.IH Cons.prems(1) by simp
  then show ?case by (simp add: e fa)
qed

lemma suite_items_distinct:
  assumes "distinct (keys (suite_classes s))"
  shows "suite_items s = suite_classes s"
  unfolding suite_items_def keys_def dict_get_def
  by (rule items_of_distinct) (use assms in \<open>simp_all add: keys_def\<close>)

lemma suite_cases_items:
  "suite_cases s = concat (map (\<lambda>e. map (Pair (fst e)) (class_cases (snd e))) (suite_items s))"
proof -
  have "concat (map (\<lambda>k. case f k of None \<Rightarrow> [] | Some cls \<Rightarrow> map (Pair k) (class_cases cls)) ks)
     = concat (map (\<lambda>e. map (Pair (fst e)) (class_cases (snd e)))
         (concat (map (\<lambda>k. case f k of None \<Rightarrow> [] | Some cls \<Rightarrow> [(k, cls)]) ks)))"
    for f :: "string \<Rightarrow> testclass option" and ks
    by (induction ks) (auto split: option.splits)
  then show ?thesis by (simp add: suite_cases_def suite_items_def)
qed

lemma mset_concat_map_perm:
  assumes "mset rs' = mset rs"
  shows "mset (concat (map f rs')) = mset (concat (map f rs))"
proof -
  have "mset (concat (map f xs)) = (\<Sum>x\<in>#mset xs. mset (f x))" for xs
    by (induction xs) simp_all
  then show ?thesis using assms by simp
qed

lemma dict_get_fold_count_case_perm:
  assumes "mset es' = mset es"
  shows "dict_get outcome (fold count_case es' d) = dict_get outcome (fold count_case es d)"
proof -
  have s: "set es' = set es" using assms by (rule mset_eq_setD)
  have "length (filter P es') = length (filter P es)" for P
    using assms by (metis mset_filter size_mset)
  then show ?thesis by (simp add: map_of_fold_count_case s)
qed

lemma dict_set_twice: "dict_set k v (dict_set k v d) = dict_set k v d"
  by (induction d) simp_all

declare str_nat.simps [simp del]

lemma digit_value_digit_char: "d < 10 \<Longrightarrow> digit_value (digit_char d) = d"
  by (simp add: digit_value_def digit_char_def)

lemma int_of_digits_str_nat: "int_of_digits (str_nat n) = n"
proof (induction n rule: str_nat.induct)
  case (1 n)
  show ?case
  proof (cases "n < 10")
    case True
    then show ?thesis
      by (subst str_nat.simps) (simp add: int_of_digits_def digit_value_digit_char)
  next
    case False
    have "int_of_digits (str_nat (n div 10) @ [digit_char (n mod 10)])
        = 10 * int_of_digits (str_nat (n div 10)) + digit_value (digit_char (n mod 10))"
      by (simp add: int_of_digits_def)
    also have "\<dots> = 10 * (n div 10) + n mod 10"
      using 1 False by (simp add: digit_value_digit_char)
    finally show ?thesis using False by (subst str_nat.simps) simp
  qed
qed

lemma str_nat_inj: "str_nat a = str_nat b \<Longrightarrow> a = b"
  by (metis int_of_digits_str_nat)

lemma str_int_inj_pos: "0 \<le> a \<Longrightarrow> 0 \<le> b \<Longrightarrow> str_int a = str_int b \<Longrightarrow> a = b"
  by (auto simp: str_int_def dest!: str_nat_inj)

lemma distinct_axis_names: "distinct (map (\<lambda>i. prefix @ str_int i) [1..n])"
proof -
  have "inj_on (\<lambda>i. prefix @ str_int i) (set [1..n])"
  proof (rule inj_onI)
    fix x y assume "x \<in> set [1..n]" "y \<in> set [1..n]" "prefix @ str_int x = prefix @ str_int y"
    then have "0 \<le> x" "0 \<le> y" "str_int x = str_int y" by simp_all
    then show "x = y" by (rule str_int_inj_pos)
  qed
  then show ?thesis by (simp add: distinct_map)
qed

lemma keys_fold_dict_set:
  assumes "distinct ks" "set ks \<inter> set (keys d) = {}"
  shows "keys (fold (\<lambda>k d. dict_set k v d) ks d) = keys d @ ks"
  using assms
proof (induction ks arbitrary: d)
  case Nil
  then show ?case by simp
next
  case (Cons k ks)
  have "keys (dict_set k v d) = keys d @ [k]" using Cons.prems(2) by (simp add: keys_dict_set)
  moreover have "set ks \<inter> set (keys (dict_set k v d)) = {}"
    using Cons.prems by (auto simp: keys_dict_set)
  ultimately show ?case using Cons.IH [of "dict_set k v d"] Cons.prems(1) by simp
qed

lemma properties_fold_init:
  "properties (fold (\<lambda>i m. m\<lparr>properties := dict_set (f i) [] (properties m)\<rparr>) is m)
     = fold (\<lambda>k d. dict_set k [] d) (map f is) (properties m)"
  by (induction "is" arbitrary: m) simp_all

lemma keys_properties_init:
  "keys (properties (init prop_prefix prop_count)) =
     (case prop_prefix of
        None \<Rightarrow> []
      | Some prefix \<Rightarrow> if prefix = [] then [] else map (\<lambda>i. prefix @ str_int i) [1..prop_count])"
proof (cases prop_prefix)
  case None
  then show ?thesis by (simp add: init_def empty_matrix_def keys_def)
next
  case (Some prefix)
  show ?thesis
  proof (cases "prefix \<noteq> [] \<and> prop_count \<noteq> 0")
    case True
    have "keys (fold (\<lambda>k d. dict_set k [] d) (map (\<lambda>i. prefix @ str_int i) [1..prop_count])
            ([] :: (string, testcase list) dict))
        = map (\<lambda>i. prefix @ str_int i) [1..prop_count]"
      using keys_fold_dict_set [of "map (\<lambda>i. prefix @ str_int i) [1..prop_count]"
          "[] :: (string, testcase list) dict" "[]"]
      by (simp add: distinct_axis_names keys_def)
    then show ?thesis
      using True Some by (simp add: init_def empty_matrix_def properties_fold_init keys_def)
  next
    case False
    then show ?thesis using Some by (auto simp: init_def empty_matrix_def keys_def)
  qed
qed

lemma axis_names_example:
  "map (\<lambda>i. CHR ''R'' # CHR ''E'' # CHR ''Q'' # str_int i) [1..3] = [''REQ1'', ''REQ2'', ''REQ3'']"
  by code_simp

section \<open>What is printed\<close>

lemma case_warnings_cong: "keys p = keys p' \<Longrightarrow> case_warnings p tc = case_warnings p' tc"
  by (simp add: case_warnings_def dict_in_def)

lemma fold_append_out: "fold (\<lambda>e out. out @ f e) es out = out @ concat (map f es)"
  by (induction es arbitrary: out) simp_all

lemma add_case_stdout:
  assumes "dict_in c (casenames m) \<and> keys (properties m) = keys P"
  shows "\<exists>m'. add_case fn c tc m = Some m'
     \<and> (dict_in c (casenames m') \<and> keys (properties m') = keys P)
     \<and> stdout m' = fold (\<lambda>e out. out @ case_warnings P (snd e)) [(c, tc)] (stdout m)"
proof -
  from assms have a: "dict_in c (casenames m)" and k: "keys (properties m) = keys P" by simp_all
  from add_case_effect [OF a, of fn tc] obtain m' where
    m': "add_case fn c tc m = Some m'" "keys (casenames m') = keys (casenames m)"
    "keys (properties m') = keys (properties m)"
    "stdout m' = stdout m @ map (\<lambda>p. warning (prop_value p))
          (filter (\<lambda>p. \<not> dict_in (prop_value p) (properties m)) (case_properties tc))"
    by (elim exE conjE)
  have "dict_in c (casenames m')" using a m'(2) by (simp add: dict_in_def)
  moreover have "stdout m' = stdout m @ case_warnings P tc"
    using m'(4) case_warnings_cong [OF k, of tc] by (simp add: case_warnings_def)
  ultimately show ?thesis using m'(1,3) k by simp
qed

lemma add_class_stdout:
  assumes "dict_get c (suite_classes s) = Some cls" and "keys (properties m) = keys P"
  shows "\<exists>m'. add_class fn s c m = Some m' \<and> keys (properties m') = keys P
     \<and> stdout m' = fold (\<lambda>e out. out @ case_warnings P (snd e))
          (map (Pair c) (class_cases cls)) (stdout m)"
proof -
  define m1 where "m1 = ensure_class c m"
  note e1 = ensure_class_effect [of c m, folded m1_def]
  from store_class_effect [OF assms(1) e1(1), of fn] obtain m2 where
    m2: "store_class fn s c m1 = Some m2"
      "\<forall>c' k. classes_at m2 c' k = (if c' = c \<and> k = fn then Some cls else classes_at m1 c' k)"
      "casenames m2 = casenames m1" "properties m2 = properties m1" "stdout m2 = stdout m1"
    by (elim exE conjE)
  have st: "classes_at m2 c fn = Some cls" using m2(2) by simp
  let ?I = "\<lambda>m::matrix. dict_in c (casenames m) \<and> keys (properties m) = keys P"
  have rd: "?I m2" using e1(2) assms(2) by (simp add: m2 e1)
  have cc: "concat (map (\<lambda>tc. [(c, tc)]) tcs) = map (Pair c) tcs" for tcs :: "testcase list"
    by (induction tcs) simp_all
  have "\<exists>s'. for_each (add_case fn c) (class_cases cls) m2 = Some s' \<and> ?I s' \<and> stdout s' =
      fold (\<lambda>e out. out @ case_warnings P (snd e))
        (concat (map (\<lambda>tc. [(c, tc)]) (class_cases cls))) (stdout m2)"
  proof (rule for_each_fold_inv [where I = ?I and obs = stdout])
    show "?I m2" by (rule rd)
  next
    fix x and st :: matrix assume "?I st"
    then show "\<exists>s'. add_case fn c x st = Some s' \<and> ?I s' \<and>
        stdout s' = fold (\<lambda>e out. out @ case_warnings P (snd e)) [(c, x)] (stdout st)"
      by (rule add_case_stdout)
  qed
  then obtain m' where m': "for_each (add_case fn c) (class_cases cls) m2 = Some m'"
    "keys (properties m') = keys P"
    "stdout m' = fold (\<lambda>e out. out @ case_warnings P (snd e))
        (map (Pair c) (class_cases cls)) (stdout m2)"
    unfolding cc by (elim exE conjE)
  have eq: "add_class fn s c m = Some m'"
    using m2(1) st m'(1) by (simp add: add_class_def m1_def)
  show ?thesis using eq m'(2,3) by (simp add: m2 e1)
qed

lemma add_suite_stdout:
  assumes "keys (properties m) = keys P"
  shows "\<exists>m'. add_suite fn s m = Some m' \<and> keys (properties m') = keys P
     \<and> stdout m' = fold (\<lambda>e out. out @ case_warnings P (snd e)) (suite_cases s) (stdout m)"
proof -
  let ?ks = "keys (suite_classes s)"
  let ?I = "\<lambda>m::matrix. keys (properties m) = keys P"
  let ?g = "\<lambda>k. case dict_get k (suite_classes s) of None \<Rightarrow> [] | Some cls \<Rightarrow> map (Pair k) (class_cases cls)"
  have known: "\<exists>cls. dict_get k (suite_classes s) = Some cls" if "k \<in> set ?ks" for k
    using that dict_in_get [of k "suite_classes s"] by (auto simp: dict_in_def)
  have "\<exists>s'. for_each (add_class fn s) ?ks m = Some s' \<and> ?I s' \<and> stdout s' =
      fold (\<lambda>e out. out @ case_warnings P (snd e)) (concat (map ?g ?ks)) (stdout m)"
  proof (rule for_each_fold_inv [where I = ?I and obs = stdout])
    show "?I m" by (rule assms)
  next
    fix k and st :: matrix assume k: "k \<in> set ?ks" and i: "?I st"
    from k obtain cls where cls: "dict_get k (suite_classes s) = Some cls" using known by blast
    from add_class_stdout [OF cls i, of fn]
    show "\<exists>s'. add_class fn s k st = Some s' \<and> ?I s' \<and>
        stdout s' = fold (\<lambda>e out. out @ case_warnings P (snd e)) (?g k) (stdout st)"
      by (simp add: cls)
  qed
  then show ?thesis by (simp add: add_suite_def suite_cases_def)
qed

lemma add_report_stdout:
  "\<exists>m'. add_report path parsed m = Some m'
     \<and> stdout m' = stdout m @
          concat (map (\<lambda>e. case_warnings (properties m) (snd e)) (junit_cases parsed))"
proof -
  define fn where "fn = os_path_basename path"
  define m0 where "m0 = m\<lparr>reports := dict_set fn parsed (reports m)\<rparr>"
  let ?P = "properties m"
  let ?I = "\<lambda>m'::matrix. keys (properties m') = keys ?P"
  have "\<exists>s'. for_each (add_suite fn) (junit_suites parsed) m0 = Some s' \<and> ?I s' \<and> stdout s' =
      fold (\<lambda>e out. out @ case_warnings ?P (snd e))
        (concat (map suite_cases (junit_suites parsed))) (stdout m0)"
  proof (rule for_each_fold_inv [where I = ?I and obs = stdout])
    show "?I m0" by (simp add: m0_def)
  next
    fix s and st :: matrix assume "?I st"
    then show "\<exists>s'. add_suite fn s st = Some s' \<and> ?I s' \<and>
        stdout s' = fold (\<lambda>e out. out @ case_warnings ?P (snd e)) (suite_cases s) (stdout st)"
      by (rule add_suite_stdout)
  qed
  then obtain m' where "for_each (add_suite fn) (junit_suites parsed) m0 = Some m'"
    "stdout m' = fold (\<lambda>e out. out @ case_warnings ?P (snd e))
        (concat (map suite_cases (junit_suites parsed))) (stdout m0)"
    by (elim exE conjE)
  then show ?thesis
    by (simp add: add_report_def fn_def [symmetric] m0_def [symmetric] junit_cases_def
        fold_append_out Let_def) (simp add: m0_def)
qed

section \<open>Keys of the natural order\<close>

lemma those_map_Some: "those (map Some ks) = Some ks"
  by (induction ks) simp_all





lemma digit_not_superscript: "is_digit c \<Longrightarrow> \<not> is_superscript c"
  by (auto simp: is_digit_def is_superscript_def)







section \<open>The order of keys\<close>

lemma str_lt_asym: "str_lt a b \<Longrightarrow> \<not> str_lt b a"
  by (induction a b rule: str_lt.induct) (auto split: if_splits)


lemma part_lt_asym: "part_lt x y = Some True \<Longrightarrow> part_lt y x = Some False"
  by (cases x; cases y) (auto dest: str_lt_asym)

lemma part_lt_irrefl: "part_lt x x \<noteq> Some True"
  using part_lt_asym [of x x] by auto




section \<open>The stable insertion sort\<close>








section \<open>Digit runs compare as numbers\<close>








section \<open>The three axes of the example\<close>




section \<open>The cells of a row\<close>

lemma html_axis_known:
  assumes "dict_get classname (cases m) = Some by_case" "dict_get casename by_case = Some by_axis"
    and "keys (reports m) = report_name # others"
  shows "html_axis m classname casename axis st =
    (case dict_get axis by_axis of
       None \<Rightarrow>
         Some \<lparr>case_results = case_results st @ [ABSENT],
               celltds = celltds st @ ''<td class='testcase-cell '' @ ABSENT @ '''>'' @ '''' @ ''</td>'',
               property_class =
                 (if dict_get axis (property_class st) \<in> {None, Some ABSENT}
                  then dict_set axis ABSENT (property_class st) else property_class st)\<rparr>
     | Some tc \<Rightarrow>
         Some \<lparr>case_results = case_results st @ [case_outcome tc],
               celltds = celltds st @ ''<td class='testcase-cell '' @ case_outcome tc @ '''>''
                 @ (if case_outcome tc = ABSENT then ''''
                    else cell_link report_name (Some (case_anchor tc))
                           (short_outcome HtmlReportMatrix (case_outcome tc)) (case_outcome tc) axis)
                 @ ''</td>'',
               property_class =
                 (if dict_get axis (property_class st) \<in> {None, Some ABSENT}
                  then dict_set axis (case_outcome tc) (property_class st)
                  else property_class st)\<rparr>)"
proof (cases "dict_get axis by_axis")
  case None
  then have "\<not> dict_in axis by_axis" by (simp add: dict_in_get)
  then show ?thesis using assms None by (simp add: html_axis_def)
next
  case (Some tc)
  then have "dict_in axis by_axis" by (simp add: dict_in_get)
  then show ?thesis using assms Some by (simp add: html_axis_def)
qed

lemma html_axis_no_report:
  assumes "keys (reports m) = []"
  shows "html_axis m classname casename axis st = None"
  using assms by (auto simp: html_axis_def split: bind_splits prod.splits)

lemma html_axis_results:
  assumes "html_axis m classname casename axis st = Some st'"
  shows "case_results st' = case_results st @ [cell_class m classname casename axis]"
proof -
  from assms obtain by_case by_axis where
    r: "dict_get classname (cases m) = Some by_case" "dict_get casename by_case = Some by_axis"
    by (auto simp: html_axis_def split: bind_splits)
  from assms r obtain k ks where k: "keys (reports m) = k # ks"
    by (cases "keys (reports m)") (auto simp: html_axis_no_report)
  have c: "cases_at m classname casename axis = dict_get axis by_axis"
    using r by (simp add: cases_at_def)
  show ?thesis
    using assms unfolding html_axis_known [OF r k]
    by (auto simp: cell_class_def c split: option.splits)
qed

lemma html_axes_results:
  assumes "for_each (html_axis m classname casename) axes st = Some st'"
  shows "case_results st' = case_results st @ map (cell_class m classname casename) axes"
  using assms
proof (induction axes arbitrary: st)
  case Nil
  then show ?case by simp
next
  case (Cons axis axes)
  from Cons.prems obtain s1 where s1: "html_axis m classname casename axis st = Some s1"
    "for_each (html_axis m classname casename) axes s1 = Some st'"
    by (auto split: option.splits)
  show ?case using Cons.IH [OF s1(2)] html_axis_results [OF s1(1)] by simp
qed

lemma elementary_in_cells:
  assumes "outcome \<noteq> ABSENT"
  shows "outcome \<in> set (map (cell_class m classname casename) axes)
     \<longleftrightarrow> outcome \<in> set (observed_outcomes m classname casename axes)"
  using assms
  by (induction axes) (auto simp: cell_class_def observed_outcomes_def split: option.splits)

section \<open>The combinator reads membership only\<close>

lemma combined_result_cong:
  assumes "PASSED \<in> set a \<longleftrightarrow> PASSED \<in> set b" "FAILED \<in> set a \<longleftrightarrow> FAILED \<in> set b"
    "SKIPPED \<in> set a \<longleftrightarrow> SKIPPED \<in> set b"
  shows "combined_result self a = combined_result self b"
  using assms by (simp add: combined_result_def)

lemma html_row_combined:
  assumes "html_row m classname casename pc = Some (st, label)"
  shows "\<exists>axes. property_order m = Some axes
     \<and> case_results st = map (cell_class m classname casename) axes
     \<and> label = snd (combined_result HtmlReportMatrix (case_results st))
     \<and> combined_result HtmlReportMatrix (case_results st)
         = combined_result HtmlReportMatrix (observed_outcomes m classname casename axes)"
proof -
  from assms obtain axes where a: "property_order m = Some axes"
    and l: "for_each (html_axis m classname casename) axes
             \<lparr>case_results = [], celltds = [], property_class = pc\<rparr> = Some st"
    and lab: "label = snd (combined_result HtmlReportMatrix (case_results st))"
    by (auto simp: html_row_def split: bind_splits)
  have r: "case_results st = map (cell_class m classname casename) axes"
    using html_axes_results [OF l] by simp
  have "combined_result HtmlReportMatrix (case_results st)
      = combined_result HtmlReportMatrix (observed_outcomes m classname casename axes)"
    unfolding r
    by (rule combined_result_cong; rule elementary_in_cells) (simp_all add: outcome_defs)
  then show ?thesis using a r lab by simp
qed

section \<open>The combinator's precedence\<close>

text \<open>
  C1. \<open>combined_result\<close> applies the fixed precedence: Passed with Failed gives partial
  failure; otherwise Passed with Skipped gives partial pass; otherwise Passed gives
  passed; otherwise Failed gives total failure; otherwise Skipped gives untested;
  and a collection with none of the three, the empty one included, gives the blank
  short code with the empty label. The function is total, so it never fails.
\<close>

theorem combined_result_precedence:
  "combined_result self results =
     (if PASSED \<in> set results \<and> FAILED \<in> set results
        then (''X'', ''Partial Failure'')
      else if PASSED \<in> set results \<and> SKIPPED \<in> set results
        then (''%'', ''Partial Pass'')
      else if PASSED \<in> set results
        then (if self = HtmlReportMatrix then ''ok'' else ''/'', ''Passed'')
      else if FAILED \<in> set results
        then (''F'', ''Total Failure'')
      else if SKIPPED \<in> set results
        then (''U'', ''Untested'')
      else ('' '', ''''))"
  by (simp add: combined_result_def title_simps short_outcome_derived)

theorem combined_result_precedence_witness:
  "combined_result TextReportMatrix [SKIPPED, PASSED, FAILED] = (''X'', ''Partial Failure'')
   \<and> combined_result TextReportMatrix [SKIPPED, PASSED] = (''%'', ''Partial Pass'')
   \<and> combined_result TextReportMatrix [PASSED] = (''/'', ''Passed'')
   \<and> combined_result HtmlReportMatrix [PASSED] = (''ok'', ''Passed'')
   \<and> combined_result TextReportMatrix [SKIPPED, FAILED] = (''F'', ''Total Failure'')
   \<and> combined_result TextReportMatrix [SKIPPED] = (''U'', ''Untested'')
   \<and> combined_result TextReportMatrix [ABSENT] = ('' '', '''')
   \<and> combined_result TextReportMatrix [] = ('' '', '''')"
  using combined_result_precedence [of TextReportMatrix "[SKIPPED, PASSED, FAILED]"]
    combined_result_precedence [of TextReportMatrix "[SKIPPED, PASSED]"]
    combined_result_precedence [of TextReportMatrix "[PASSED]"]
    combined_result_precedence [of HtmlReportMatrix "[PASSED]"]
    combined_result_precedence [of TextReportMatrix "[SKIPPED, FAILED]"]
    combined_result_precedence [of TextReportMatrix "[SKIPPED]"]
    combined_result_precedence [of TextReportMatrix "[ABSENT]"]
    combined_result_precedence [of TextReportMatrix "[]"]
  by (simp add: outcome_defs)

section \<open>The registry of case names\<close>

text \<open>
  C3. The claim is that \<open>casenames[class]\<close> holds each trimmed case name at most once.
  The guard of line 85 tests \<open>basename not in self.casenames\<close>, the dictionary keyed by
  class name, instead of the list of the class, so a name that is not itself a class
  name is appended at every occurrence, and a name that is a class name is never
  appended. Two reports that both hold case \<open>t\<close> of class \<open>C\<close> leave the registry of
  \<open>C\<close> with \<open>t\<close> twice; a case \<open>C\<close> of class \<open>C\<close> leaves it empty.
\<close>

theorem casenames_repeat_a_name:
  "map_option casenames
     (add_reports
        [(''a.xml'', \<lparr>junit_suites = [\<lparr>suite_classes = [(''C'', \<lparr>class_cases =
            [\<lparr>case_basename = ''t'', case_outcome = ''passed'', case_anchor = ''x'',
              case_properties = []\<rparr>]\<rparr>)]\<rparr>]\<rparr>),
         (''b.xml'', \<lparr>junit_suites = [\<lparr>suite_classes = [(''C'', \<lparr>class_cases =
            [\<lparr>case_basename = ''t'', case_outcome = ''passed'', case_anchor = ''x'',
              case_properties = []\<rparr>]\<rparr>)]\<rparr>]\<rparr>)]
        (init None 0))
   = Some [(''C'', [''t'', ''t''])]
   \<and> map_option casenames
     (add_reports
        [(''a.xml'', \<lparr>junit_suites = [\<lparr>suite_classes = [(''C'', \<lparr>class_cases =
            [\<lparr>case_basename = ''C'', case_outcome = ''passed'', case_anchor = ''x'',
              case_properties = []\<rparr>]\<rparr>)]\<rparr>]\<rparr>)]
        (init None 0))
   = Some [(''C'', [])]"
  by code_simp

section \<open>The outcome counter\<close>

text \<open>
  C4. Loading a report raises the counter of each outcome by the number of case
  occurrences of the report with that outcome, whatever properties the cases declare,
  so the total grows by the number of case occurrences; and after a run that starts
  from a new matrix the total is the number of case occurrences of all the reports
  loaded. \<open>add_report\<close> and the run return a matrix.
\<close>

theorem result_stats_once_per_case:
  "(\<exists>m'. add_report path parsed m = Some m'
      \<and> (\<forall>outcome. stat m' outcome = stat m outcome + int (outcome_count parsed outcome))
      \<and> stats_total m' = stats_total m + int (length (junit_cases parsed)))
   \<and> (\<exists>m'. add_reports rs (init prop_prefix prop_count) = Some m'
      \<and> stats_total m' = int (length (concat (map (\<lambda>r. junit_cases (snd r)) rs))))"
proof
  from add_report_effect [of path parsed m] obtain m' where
    m': "add_report path parsed m = Some m'"
    "result_stats m' = fold count_case (junit_cases parsed) (result_stats m)"
    by (elim exE conjE)
  have "stat m' outcome = stat m outcome + int (outcome_count parsed outcome)" for outcome
    by (simp add: stat_def m'(2) stat_fold_count_case outcome_count_def)
  moreover have "stats_total m' = stats_total m + int (length (junit_cases parsed))"
    by (simp add: stats_total_def m'(2) total_fold_count_case)
  ultimately show "\<exists>m'. add_report path parsed m = Some m'
      \<and> (\<forall>outcome. stat m' outcome = stat m outcome + int (outcome_count parsed outcome))
      \<and> stats_total m' = stats_total m + int (length (junit_cases parsed))"
    using m'(1) by simp
next
  let ?m0 = "init prop_prefix prop_count"
  have r0: "result_stats (fold (\<lambda>i m. m\<lparr>properties := f i m\<rparr>) is m) = result_stats m"
    for f :: "int \<Rightarrow> matrix \<Rightarrow> (string, testcase list) dict" and "is" m
    by (induction "is" arbitrary: m) simp_all
  have z: "result_stats ?m0 = []"
    by (simp add: init_def empty_matrix_def r0 split: option.splits)
  from add_reports_effect [of rs ?m0] obtain m' where
    m': "add_reports rs ?m0 = Some m'"
    "result_stats m' = fold count_case (concat (map (\<lambda>r. junit_cases (snd r)) rs)) (result_stats ?m0)"
    by (elim exE conjE)
  have "stats_total m' = int (length (concat (map (\<lambda>r. junit_cases (snd r)) rs)))"
    unfolding stats_total_def m'(2) total_fold_count_case by (simp add: z)
  then show "\<exists>m'. add_reports rs ?m0 = Some m'
      \<and> stats_total m' = int (length (concat (map (\<lambda>r. junit_cases (snd r)) rs)))"
    using m'(1) by simp
qed

theorem result_stats_once_per_case_witness:
  "\<exists>m'. add_report ''out/a.xml''
       \<lparr>junit_suites = [\<lparr>suite_classes = [(''C'', \<lparr>class_cases =
          [\<lparr>case_basename = ''t'', case_outcome = ''passed'', case_anchor = ''x'',
             case_properties = [\<lparr>prop_name = ''srs'', prop_value = ''REQ1''\<rparr>,
                                \<lparr>prop_name = ''srs'', prop_value = ''REQ2''\<rparr>]\<rparr>,
           \<lparr>case_basename = ''u'', case_outcome = ''failed'', case_anchor = ''y'',
             case_properties = []\<rparr>]\<rparr>)]\<rparr>]\<rparr>
       (init (Some ''REQ'') 2) = Some m'
     \<and> stat m' ''passed'' = 1 \<and> stat m' ''failed'' = 1 \<and> stat m' ''skipped'' = 0
     \<and> stats_total m' = 2"
proof -
  let ?r = "\<lparr>junit_suites = [\<lparr>suite_classes = [(''C'', \<lparr>class_cases =
          [\<lparr>case_basename = ''t'', case_outcome = ''passed'', case_anchor = ''x'',
             case_properties = [\<lparr>prop_name = ''srs'', prop_value = ''REQ1''\<rparr>,
                                \<lparr>prop_name = ''srs'', prop_value = ''REQ2''\<rparr>]\<rparr>,
           \<lparr>case_basename = ''u'', case_outcome = ''failed'', case_anchor = ''y'',
             case_properties = []\<rparr>]\<rparr>)]\<rparr>]\<rparr>"
  have c: "outcome_count ?r ''passed'' = 1" "outcome_count ?r ''failed'' = 1"
    "outcome_count ?r ''skipped'' = 0" "length (junit_cases ?r) = 2"
    by code_simp+
  have z: "stat (init (Some ''REQ'') 2) ''passed'' = 0" "stat (init (Some ''REQ'') 2) ''failed'' = 0"
    "stat (init (Some ''REQ'') 2) ''skipped'' = 0" "stats_total (init (Some ''REQ'') 2) = 0"
    by code_simp+
  show ?thesis
    using result_stats_once_per_case [of "''out/a.xml''" ?r "init (Some ''REQ'') 2" "[]" None 0]
    by (auto simp: c z)
qed

section \<open>Unrecognized properties\<close>

text \<open>
  C5. A property whose value is not a declared axis is skipped with a warning and
  nothing else changes its course. For a whole report: \<open>add_report\<close> returns a matrix
  (no exception), the declared axes are the same afterwards, and what is printed is one
  warning for each unrecognized property of each case occurrence, in order. For one case
  with such a property \<open>p\<close>, in the state where its class has been entered: the case
  is processed, the warning for \<open>p\<close> is printed, the value of \<open>p\<close> is still no
  axis and (unless it is the file name itself) nothing is stored under it, the case is
  stored under the file name, its outcome is counted once, and under every
  recognized property value the case is stored and appended to the list of that axis.
\<close>

theorem unrecognized_property_skipped:
  "(\<exists>m'. add_report path parsed m = Some m'
      \<and> keys (properties m') = keys (properties m)
      \<and> stdout m' = stdout m @
           concat (map (\<lambda>e. case_warnings (properties m) (snd e)) (junit_cases parsed)))
   \<and> (dict_in testclass (casenames m) \<and> p \<in> set (case_properties tc)
        \<and> \<not> dict_in (prop_value p) (properties m) \<longrightarrow>
       (\<exists>m'. add_case filename testclass tc m = Some m'
          \<and> warning (prop_value p) \<in> set (stdout m')
          \<and> keys (properties m') = keys (properties m)
          \<and> \<not> dict_in (prop_value p) (properties m')
          \<and> (prop_value p \<noteq> filename \<longrightarrow>
                cases_at m' testclass (strip (case_basename tc)) (prop_value p)
                  = cases_at m testclass (strip (case_basename tc)) (prop_value p))
          \<and> cases_at m' testclass (strip (case_basename tc)) filename = Some tc
          \<and> stat m' (case_outcome tc) = stat m (case_outcome tc) + 1
          \<and> (\<forall>q \<in> set (case_properties tc). dict_in (prop_value q) (properties m) \<longrightarrow>
                cases_at m' testclass (strip (case_basename tc)) (prop_value q) = Some tc
                \<and> (\<exists>tests. dict_get (prop_value q) (properties m') = Some tests
                      \<and> tc \<in> set tests))))"
proof (intro conjI impI)
  from add_report_effect [of path parsed m] obtain m1 where
    m1: "add_report path parsed m = Some m1" "keys (properties m1) = keys (properties m)"
    by (elim exE conjE)
  from add_report_stdout [of path parsed m] m1(1) have
    "stdout m1 = stdout m @
       concat (map (\<lambda>e. case_warnings (properties m) (snd e)) (junit_cases parsed))"
    by auto
  then show "\<exists>m'. add_report path parsed m = Some m'
      \<and> keys (properties m') = keys (properties m)
      \<and> stdout m' = stdout m @
           concat (map (\<lambda>e. case_warnings (properties m) (snd e)) (junit_cases parsed))"
    using m1 by simp
next
  let ?b = "strip (case_basename tc)"
  assume asm: "dict_in testclass (casenames m) \<and> p \<in> set (case_properties tc)
        \<and> \<not> dict_in (prop_value p) (properties m)"
  then have a: "dict_in testclass (casenames m)" and p: "p \<in> set (case_properties tc)"
    and u: "\<not> dict_in (prop_value p) (properties m)" by simp_all
  from add_case_effect [OF a, of filename tc] obtain m' where
    m': "add_case filename testclass tc m = Some m'"
    "keys (properties m') = keys (properties m)"
    "result_stats m' = bump (case_outcome tc) (result_stats m)"
    "stdout m' = stdout m @ map (\<lambda>p. warning (prop_value p))
          (filter (\<lambda>p. \<not> dict_in (prop_value p) (properties m)) (case_properties tc))"
    "\<forall>c' b' k. cases_at m' c' b' k =
          (if c' = testclass \<and> b' = ?b
              \<and> (k = filename \<or> (k \<in> prop_value ` set (case_properties tc) \<and> dict_in k (properties m)))
           then Some tc else cases_at m c' b' k)"
    "\<forall>p \<in> set (case_properties tc). dict_in (prop_value p) (properties m) \<longrightarrow>
          (\<exists>tests. dict_get (prop_value p) (properties m') = Some tests \<and> tc \<in> set tests)"
    by (elim exE conjE)
  have c1: "warning (prop_value p) \<in> set (stdout m')"
    using p u by (auto simp: m'(4))
  have c2: "\<not> dict_in (prop_value p) (properties m')"
    using u m'(2) by (simp add: dict_in_def)
  have c3: "prop_value p \<noteq> filename \<longrightarrow>
      cases_at m' testclass ?b (prop_value p) = cases_at m testclass ?b (prop_value p)"
    using u m'(5) by simp
  have c4: "cases_at m' testclass ?b filename = Some tc"
    using m'(5) by simp
  have c5: "stat m' (case_outcome tc) = stat m (case_outcome tc) + 1"
    by (simp add: stat_def m'(3) bump_def dict_get_default_dict_set)
  have c6: "\<forall>q \<in> set (case_properties tc). dict_in (prop_value q) (properties m) \<longrightarrow>
      cases_at m' testclass ?b (prop_value q) = Some tc
      \<and> (\<exists>tests. dict_get (prop_value q) (properties m') = Some tests \<and> tc \<in> set tests)"
  proof (intro ballI impI conjI)
    fix q assume q: "q \<in> set (case_properties tc)" "dict_in (prop_value q) (properties m)"
    then show "cases_at m' testclass ?b (prop_value q) = Some tc" using m'(5) by simp
    from q m'(6) show "\<exists>tests. dict_get (prop_value q) (properties m') = Some tests \<and> tc \<in> set tests"
      by blast
  qed
  show "\<exists>m'. add_case filename testclass tc m = Some m'
          \<and> warning (prop_value p) \<in> set (stdout m')
          \<and> keys (properties m') = keys (properties m)
          \<and> \<not> dict_in (prop_value p) (properties m')
          \<and> (prop_value p \<noteq> filename \<longrightarrow>
                cases_at m' testclass ?b (prop_value p) = cases_at m testclass ?b (prop_value p))
          \<and> cases_at m' testclass ?b filename = Some tc
          \<and> stat m' (case_outcome tc) = stat m (case_outcome tc) + 1
          \<and> (\<forall>q \<in> set (case_properties tc). dict_in (prop_value q) (properties m) \<longrightarrow>
                cases_at m' testclass ?b (prop_value q) = Some tc
                \<and> (\<exists>tests. dict_get (prop_value q) (properties m') = Some tests
                      \<and> tc \<in> set tests))"
    by (intro exI [of _ m'] conjI) (rule m'(1) m'(2) c1 c2 c3 c4 c5 c6)+
qed

theorem unrecognized_property_skipped_witness:
  "dict_in ''C'' (casenames (ensure_class ''C'' (init (Some ''REQ'') 1)))
   \<and> \<lparr>prop_name = ''srs'', prop_value = ''BAD''\<rparr> \<in> set
        [\<lparr>prop_name = ''srs'', prop_value = ''BAD''\<rparr>, \<lparr>prop_name = ''srs'', prop_value = ''REQ1''\<rparr>]
   \<and> \<not> dict_in ''BAD'' (properties (ensure_class ''C'' (init (Some ''REQ'') 1)))
   \<and> (\<exists>m'. add_case ''a.xml'' ''C''
          \<lparr>case_basename = ''t'', case_outcome = ''passed'', case_anchor = ''x'',
            case_properties = [\<lparr>prop_name = ''srs'', prop_value = ''BAD''\<rparr>,
                               \<lparr>prop_name = ''srs'', prop_value = ''REQ1''\<rparr>]\<rparr>
          (ensure_class ''C'' (init (Some ''REQ'') 1)) = Some m'
        \<and> warning ''BAD'' \<in> set (stdout m')
        \<and> \<not> dict_in ''BAD'' (properties m')
        \<and> cases_at m' ''C'' ''t'' ''BAD'' = None
        \<and> cases_at m' ''C'' ''t'' ''a.xml'' = cases_at m' ''C'' ''t'' ''REQ1'')"
proof -
  let ?m = "ensure_class ''C'' (init (Some ''REQ'') 1)"
  let ?bad = "\<lparr>prop_name = ''srs'', prop_value = ''BAD''\<rparr>"
  let ?req = "\<lparr>prop_name = ''srs'', prop_value = ''REQ1''\<rparr>"
  let ?tc = "\<lparr>case_basename = ''t'', case_outcome = ''passed'', case_anchor = ''x'',
            case_properties = [?bad, ?req]\<rparr>"
  have h: "dict_in ''C'' (casenames ?m)" "\<not> dict_in ''BAD'' (properties ?m)"
    "dict_in ''REQ1'' (properties ?m)" "cases_at ?m ''C'' ''t'' ''BAD'' = None"
    "strip ''t'' = ''t''"
    by code_simp+
  from unrecognized_property_skipped
    [where m = ?m and testclass = "''C''" and p = ?bad and tc = ?tc and filename = "''a.xml''",
      THEN conjunct2]
  show ?thesis using h by auto
qed

section \<open>The declared axes\<close>

text \<open>
  C6, as the claim states it, fails for an empty prefix: the guard
  \<open>if prop_prefix and prop_count\<close> treats the empty string as no prefix, so a count of
  three creates no axis instead of the axes \<open>1\<close>, \<open>2\<close>, \<open>3\<close>.
\<close>

theorem init_empty_prefix_counterexample:
  "keys (properties (init (Some '''') 3)) = []
   \<and> keys (properties (init (Some '''') 3)) \<noteq> [''1'', ''2'', ''3'']"
  by (simp add: init_def empty_matrix_def keys_def)

text \<open>
  C6, amended. Construction with a non-empty prefix and a count \<open>n\<close> creates exactly
  the axes prefix+1 ... prefix+n, in this order and pairwise distinct (none for
  \<open>n \<le> 0\<close>); with no prefix or the empty prefix it creates none. \<open>add_report\<close>
  returns a matrix with the same keys of \<open>properties\<close>, in the same order, whatever the
  report holds.
\<close>

theorem property_axes_fixed:
  "keys (properties (init prop_prefix prop_count)) =
     (case prop_prefix of
        None \<Rightarrow> []
      | Some prefix \<Rightarrow> if prefix = [] then [] else map (\<lambda>i. prefix @ str_int i) [1..prop_count])
   \<and> distinct (keys (properties (init prop_prefix prop_count)))
   \<and> length (keys (properties (init prop_prefix prop_count))) =
       (case prop_prefix of
          None \<Rightarrow> 0
        | Some prefix \<Rightarrow> if prefix = [] then 0 else nat prop_count)
   \<and> (\<exists>m'. add_report path parsed m = Some m' \<and> keys (properties m') = keys (properties m))"
proof (intro conjI)
  show "keys (properties (init prop_prefix prop_count)) =
     (case prop_prefix of
        None \<Rightarrow> []
      | Some prefix \<Rightarrow> if prefix = [] then [] else map (\<lambda>i. prefix @ str_int i) [1..prop_count])"
    by (rule keys_properties_init)
  show "distinct (keys (properties (init prop_prefix prop_count)))"
    unfolding keys_properties_init by (simp add: distinct_axis_names split: option.splits)
  show "length (keys (properties (init prop_prefix prop_count))) =
       (case prop_prefix of
          None \<Rightarrow> 0
        | Some prefix \<Rightarrow> if prefix = [] then 0 else nat prop_count)"
    unfolding keys_properties_init by (simp split: option.splits)
  from add_report_effect [of path parsed m] obtain m' where
    "add_report path parsed m = Some m'" "keys (properties m') = keys (properties m)"
    by (elim exE conjE)
  then show "\<exists>m'. add_report path parsed m = Some m' \<and> keys (properties m') = keys (properties m)"
    by simp
qed

theorem property_axes_fixed_witness:
  "keys (properties (init (Some ''REQ'') 3)) = [''REQ1'', ''REQ2'', ''REQ3'']
   \<and> length (keys (properties (init (Some ''REQ'') 3))) = 3
   \<and> (\<exists>m'. add_report ''out/a.xml'' \<lparr>junit_suites = []\<rparr> (init (Some ''REQ'') 3) = Some m'
        \<and> keys (properties m') = [''REQ1'', ''REQ2'', ''REQ3''])"
  using property_axes_fixed [of "Some ''REQ''" 3 "''out/a.xml''" "\<lparr>junit_suites = []\<rparr>"
      "init (Some ''REQ'') 3"]
  by (auto simp: axis_names_example)

section \<open>The order of the reports\<close>

text \<open>
  C7. For reports with pairwise distinct base names, loaded from the same matrix in two
  orders (the second list is a permutation of the first), both runs return a matrix, and
  the two counters are equal as dictionaries: every outcome has the same entry in both.
\<close>

theorem result_stats_order_independent:
  assumes "mset rs' = mset rs"
    and "distinct (map (\<lambda>r. os_path_basename (fst r)) rs)"
  shows "\<exists>m1 m2. add_reports rs m = Some m1 \<and> add_reports rs' m = Some m2
     \<and> (\<forall>outcome. dict_get outcome (result_stats m2) = dict_get outcome (result_stats m1))"
proof -
  let ?E = "\<lambda>rs. concat (map (\<lambda>r. junit_cases (snd r)) rs)"
  from add_reports_effect [of rs m] obtain m1 where
    m1: "add_reports rs m = Some m1" "result_stats m1 = fold count_case (?E rs) (result_stats m)"
    by (elim exE conjE)
  from add_reports_effect [of rs' m] obtain m2 where
    m2: "add_reports rs' m = Some m2" "result_stats m2 = fold count_case (?E rs') (result_stats m)"
    by (elim exE conjE)
  have "mset (?E rs') = mset (?E rs)" by (rule mset_concat_map_perm [OF assms(1)])
  then have "dict_get outcome (result_stats m2) = dict_get outcome (result_stats m1)" for outcome
    unfolding m1(2) m2(2) by (rule dict_get_fold_count_case_perm)
  then show ?thesis using m1(1) m2(1) by simp
qed

theorem result_stats_order_independent_witness:
  "mset [(''b.xml'', \<lparr>junit_suites = [\<lparr>suite_classes = [(''D'', \<lparr>class_cases =
            [\<lparr>case_basename = ''u'', case_outcome = ''failed'', case_anchor = ''y'',
               case_properties = []\<rparr>]\<rparr>)]\<rparr>]\<rparr>),
         (''out/a.xml'', \<lparr>junit_suites = [\<lparr>suite_classes = [(''C'', \<lparr>class_cases =
            [\<lparr>case_basename = ''t'', case_outcome = ''passed'', case_anchor = ''x'',
               case_properties = []\<rparr>]\<rparr>)]\<rparr>]\<rparr>)]
   = mset [(''out/a.xml'', \<lparr>junit_suites = [\<lparr>suite_classes = [(''C'', \<lparr>class_cases =
            [\<lparr>case_basename = ''t'', case_outcome = ''passed'', case_anchor = ''x'',
               case_properties = []\<rparr>]\<rparr>)]\<rparr>]\<rparr>),
           (''b.xml'', \<lparr>junit_suites = [\<lparr>suite_classes = [(''D'', \<lparr>class_cases =
            [\<lparr>case_basename = ''u'', case_outcome = ''failed'', case_anchor = ''y'',
               case_properties = []\<rparr>]\<rparr>)]\<rparr>]\<rparr>)]
   \<and> distinct [os_path_basename ''out/a.xml'', os_path_basename ''b.xml'']
   \<and> (\<exists>m1 m2.
         add_reports
           [(''out/a.xml'', \<lparr>junit_suites = [\<lparr>suite_classes = [(''C'', \<lparr>class_cases =
              [\<lparr>case_basename = ''t'', case_outcome = ''passed'', case_anchor = ''x'',
                 case_properties = []\<rparr>]\<rparr>)]\<rparr>]\<rparr>),
            (''b.xml'', \<lparr>junit_suites = [\<lparr>suite_classes = [(''D'', \<lparr>class_cases =
              [\<lparr>case_basename = ''u'', case_outcome = ''failed'', case_anchor = ''y'',
                 case_properties = []\<rparr>]\<rparr>)]\<rparr>]\<rparr>)]
           (init None 0) = Some m1
         \<and> add_reports
           [(''b.xml'', \<lparr>junit_suites = [\<lparr>suite_classes = [(''D'', \<lparr>class_cases =
              [\<lparr>case_basename = ''u'', case_outcome = ''failed'', case_anchor = ''y'',
                 case_properties = []\<rparr>]\<rparr>)]\<rparr>]\<rparr>),
            (''out/a.xml'', \<lparr>junit_suites = [\<lparr>suite_classes = [(''C'', \<lparr>class_cases =
              [\<lparr>case_basename = ''t'', case_outcome = ''passed'', case_anchor = ''x'',
                 case_properties = []\<rparr>]\<rparr>)]\<rparr>]\<rparr>)]
           (init None 0) = Some m2
         \<and> (\<forall>outcome. dict_get outcome (result_stats m2) = dict_get outcome (result_stats m1)))"
proof -
  let ?a = "(''out/a.xml'', \<lparr>junit_suites = [\<lparr>suite_classes = [(''C'', \<lparr>class_cases =
            [\<lparr>case_basename = ''t'', case_outcome = ''passed'', case_anchor = ''x'',
               case_properties = []\<rparr>]\<rparr>)]\<rparr>]\<rparr>)"
  let ?b = "(''b.xml'', \<lparr>junit_suites = [\<lparr>suite_classes = [(''D'', \<lparr>class_cases =
            [\<lparr>case_basename = ''u'', case_outcome = ''failed'', case_anchor = ''y'',
               case_properties = []\<rparr>]\<rparr>)]\<rparr>]\<rparr>)"
  have h1: "mset [?b, ?a] = mset [?a, ?b]" by (simp add: add_mset_commute)
  have h2: "distinct (map (\<lambda>r. os_path_basename (fst r)) [?a, ?b])" by code_simp
  have h3: "distinct [os_path_basename ''out/a.xml'', os_path_basename ''b.xml'']" by code_simp
  from result_stats_order_independent [OF h1 h2, of "init None 0"] h1 h3
  show ?thesis by simp
qed

section \<open>Loading a report twice\<close>

text \<open>
  C8. When a report is loaded a second time under a path with the same base name, both
  loads return a matrix; after the second, \<open>reports\<close> is unchanged, and so is, for
  every class and case, what \<open>classes\<close> and \<open>cases\<close> hold under the file name:
  it is what the first load left there. The counter of every outcome has grown by the
  report's count once after the first load and twice after the second.
\<close>

theorem reingest_overwrites_and_double_counts:
  assumes "os_path_basename path' = os_path_basename path"
  shows "\<exists>m1 m2. add_report path parsed m = Some m1 \<and> add_report path' parsed m1 = Some m2
     \<and> reports m2 = reports m1
     \<and> dict_get (os_path_basename path) (reports m1) = Some parsed
     \<and> (\<forall>c. classes_at m2 c (os_path_basename path) = classes_at m1 c (os_path_basename path))
     \<and> (\<forall>c b. cases_at m2 c b (os_path_basename path) = cases_at m1 c b (os_path_basename path))
     \<and> (\<forall>outcome. stat m1 outcome = stat m outcome + int (outcome_count parsed outcome)
          \<and> stat m2 outcome = stat m outcome + 2 * int (outcome_count parsed outcome))"
proof -
  define fn where "fn = os_path_basename path"
  have fn': "os_path_basename path' = fn" using assms by (simp add: fn_def)
  from add_report_effect [of path parsed m, folded fn_def] obtain m1 where
    m1: "add_report path parsed m = Some m1"
    "reports m1 = dict_set fn parsed (reports m)"
    "result_stats m1 = fold count_case (junit_cases parsed) (result_stats m)"
    "\<forall>c b. cases_at m1 c b fn = fold (write_case c b) (junit_cases parsed) (cases_at m c b fn)"
    "\<forall>c. classes_at m1 c fn = fold (write_class c) (junit_items parsed) (classes_at m c fn)"
    by (elim exE conjE)
  from add_report_effect [of path' parsed m1, unfolded fn'] obtain m2 where
    m2: "add_report path' parsed m1 = Some m2"
    "reports m2 = dict_set fn parsed (reports m1)"
    "result_stats m2 = fold count_case (junit_cases parsed) (result_stats m1)"
    "\<forall>c b. cases_at m2 c b fn = fold (write_case c b) (junit_cases parsed) (cases_at m1 c b fn)"
    "\<forall>c. classes_at m2 c fn = fold (write_class c) (junit_items parsed) (classes_at m1 c fn)"
    by (elim exE conjE)
  have a1: "reports m2 = reports m1" by (simp add: m2(2) m1(2) dict_set_twice)
  have a2: "dict_get fn (reports m1) = Some parsed" by (simp add: m1(2) dict_get_dict_set)
  have a3: "classes_at m2 c fn = classes_at m1 c fn" for c
    using m2(5) m1(5) by (simp add: fold_write_class_twice)
  have a4: "cases_at m2 c b fn = cases_at m1 c b fn" for c b
    using m2(4) m1(4) by (simp add: fold_write_case_twice)
  have a5: "stat m1 outcome = stat m outcome + int (outcome_count parsed outcome)" for outcome
    by (simp add: stat_def m1(3) stat_fold_count_case outcome_count_def)
  have a6: "stat m2 outcome = stat m outcome + 2 * int (outcome_count parsed outcome)" for outcome
    by (simp add: stat_def m1(3) m2(3) stat_fold_count_case outcome_count_def)
  have "add_report path parsed m = Some m1 \<and> add_report path' parsed m1 = Some m2
     \<and> reports m2 = reports m1
     \<and> dict_get fn (reports m1) = Some parsed
     \<and> (\<forall>c. classes_at m2 c fn = classes_at m1 c fn)
     \<and> (\<forall>c b. cases_at m2 c b fn = cases_at m1 c b fn)
     \<and> (\<forall>outcome. stat m1 outcome = stat m outcome + int (outcome_count parsed outcome)
          \<and> stat m2 outcome = stat m outcome + 2 * int (outcome_count parsed outcome))"
    by (intro conjI allI) (rule m1(1) m2(1) a1 a2 a3 a4 a5 a6)+
  then show ?thesis
    unfolding fn_def [symmetric] by blast
qed

theorem reingest_overwrites_and_double_counts_witness:
  "os_path_basename ''a.xml'' = os_path_basename ''out/a.xml''
   \<and> (\<exists>m1 m2.
         add_report ''out/a.xml''
           \<lparr>junit_suites = [\<lparr>suite_classes = [(''C'', \<lparr>class_cases =
              [\<lparr>case_basename = ''t'', case_outcome = ''passed'', case_anchor = ''x'',
                 case_properties = []\<rparr>]\<rparr>)]\<rparr>]\<rparr>
           (init None 0) = Some m1
         \<and> add_report ''a.xml''
           \<lparr>junit_suites = [\<lparr>suite_classes = [(''C'', \<lparr>class_cases =
              [\<lparr>case_basename = ''t'', case_outcome = ''passed'', case_anchor = ''x'',
                 case_properties = []\<rparr>]\<rparr>)]\<rparr>]\<rparr>
           m1 = Some m2
         \<and> reports m2 = reports m1
         \<and> cases_at m2 ''C'' ''t'' ''a.xml'' = cases_at m1 ''C'' ''t'' ''a.xml''
         \<and> stat m1 ''passed'' = 1 \<and> stat m2 ''passed'' = 2)"
proof -
  let ?r = "\<lparr>junit_suites = [\<lparr>suite_classes = [(''C'', \<lparr>class_cases =
              [\<lparr>case_basename = ''t'', case_outcome = ''passed'', case_anchor = ''x'',
                 case_properties = []\<rparr>]\<rparr>)]\<rparr>]\<rparr>"
  have h: "os_path_basename ''a.xml'' = os_path_basename ''out/a.xml''" by code_simp
  have b: "os_path_basename ''out/a.xml'' = ''a.xml''" by code_simp
  have c: "outcome_count ?r ''passed'' = 1" "stat (init None 0) ''passed'' = 0" by code_simp+
  from reingest_overwrites_and_double_counts [OF h, of ?r "init None 0"]
  show ?thesis using h by (auto simp: b c)
qed

section \<open>What the combinator depends on\<close>

text \<open>
  C2. \<open>combined_result\<close> depends only on which of Passed, Failed and Skipped occur in
  its input: two inputs with the same three memberships give the same result, so do two
  inputs with the same elements (in any order, any number of times), and putting in or
  taking out an entry that is none of the three, such as Absent, changes nothing. In a
  row of the HTML matrix, where \<open>case_results\<close> has Absent for every blank cell, the
  combined label is the one of the outcomes of the cells that hold data.
\<close>

theorem combined_result_membership_only:
  "((PASSED \<in> set a \<longleftrightarrow> PASSED \<in> set b) \<and> (FAILED \<in> set a \<longleftrightarrow> FAILED \<in> set b)
       \<and> (SKIPPED \<in> set a \<longleftrightarrow> SKIPPED \<in> set b)
      \<longrightarrow> combined_result self a = combined_result self b)
   \<and> (set a = set b \<longrightarrow> combined_result self a = combined_result self b)
   \<and> (x \<notin> {PASSED, FAILED, SKIPPED} \<longrightarrow>
        combined_result self (x # a) = combined_result self a
        \<and> combined_result self (removeAll x a) = combined_result self a)
   \<and> (html_row m classname casename pc = Some (st, label) \<longrightarrow>
        (\<exists>axes. property_order m = Some axes
           \<and> case_results st = map (cell_class m classname casename) axes
           \<and> label = snd (combined_result HtmlReportMatrix (case_results st))
           \<and> combined_result HtmlReportMatrix (case_results st)
               = combined_result HtmlReportMatrix (observed_outcomes m classname casename axes)))"
proof (intro conjI impI)
  assume "(PASSED \<in> set a \<longleftrightarrow> PASSED \<in> set b) \<and> (FAILED \<in> set a \<longleftrightarrow> FAILED \<in> set b)
       \<and> (SKIPPED \<in> set a \<longleftrightarrow> SKIPPED \<in> set b)"
  then show "combined_result self a = combined_result self b"
    by (intro combined_result_cong) simp_all
next
  assume "set a = set b"
  then show "combined_result self a = combined_result self b"
    by (intro combined_result_cong) simp_all
next
  assume "x \<notin> {PASSED, FAILED, SKIPPED}"
  then show "combined_result self (x # a) = combined_result self a"
    by (intro combined_result_cong) auto
next
  assume "x \<notin> {PASSED, FAILED, SKIPPED}"
  then show "combined_result self (removeAll x a) = combined_result self a"
    by (intro combined_result_cong) auto
next
  assume "html_row m classname casename pc = Some (st, label)"
  then show "\<exists>axes. property_order m = Some axes
           \<and> case_results st = map (cell_class m classname casename) axes
           \<and> label = snd (combined_result HtmlReportMatrix (case_results st))
           \<and> combined_result HtmlReportMatrix (case_results st)
               = combined_result HtmlReportMatrix (observed_outcomes m classname casename axes)"
    by (rule html_row_combined)
qed

theorem combined_result_membership_only_witness:
  "combined_result TextReportMatrix [PASSED, ABSENT, FAILED]
     = combined_result TextReportMatrix [FAILED, PASSED, PASSED]
   \<and> combined_result TextReportMatrix (ABSENT # [SKIPPED]) = combined_result TextReportMatrix [SKIPPED]
   \<and> (\<exists>st label axes.
         html_row
           (empty_matrix\<lparr>
              reports := [(''a.xml'', \<lparr>junit_suites = []\<rparr>)],
              cases := [(''C'', [(''t'', [(''REQ2'',
                 \<lparr>case_basename = ''t'', case_outcome = ''passed'', case_anchor = ''anc'',
                   case_properties = []\<rparr>)])])],
              properties := [(''REQ1'', []), (''REQ2'', [])]\<rparr>)
           ''C'' ''t'' [] = Some (st, label)
         \<and> case_results st = [''absent'', ''passed'']
         \<and> label = ''Passed''
         \<and> property_order
           (empty_matrix\<lparr>
              reports := [(''a.xml'', \<lparr>junit_suites = []\<rparr>)],
              cases := [(''C'', [(''t'', [(''REQ2'',
                 \<lparr>case_basename = ''t'', case_outcome = ''passed'', case_anchor = ''anc'',
                   case_properties = []\<rparr>)])])],
              properties := [(''REQ1'', []), (''REQ2'', [])]\<rparr>) = Some axes
         \<and> observed_outcomes
           (empty_matrix\<lparr>
              reports := [(''a.xml'', \<lparr>junit_suites = []\<rparr>)],
              cases := [(''C'', [(''t'', [(''REQ2'',
                 \<lparr>case_basename = ''t'', case_outcome = ''passed'', case_anchor = ''anc'',
                   case_properties = []\<rparr>)])])],
              properties := [(''REQ1'', []), (''REQ2'', [])]\<rparr>)
           ''C'' ''t'' axes = [''passed''])"
proof -
  let ?m = "empty_matrix\<lparr>
              reports := [(''a.xml'', \<lparr>junit_suites = []\<rparr>)],
              cases := [(''C'', [(''t'', [(''REQ2'',
                 \<lparr>case_basename = ''t'', case_outcome = ''passed'', case_anchor = ''anc'',
                   case_properties = []\<rparr>)])])],
              properties := [(''REQ1'', []), (''REQ2'', [])]\<rparr>"
  let ?row = "the (html_row ?m ''C'' ''t'' [])"
  have a: "(PASSED \<in> set [PASSED, ABSENT, FAILED] \<longleftrightarrow> PASSED \<in> set [FAILED, PASSED, PASSED])
      \<and> (FAILED \<in> set [PASSED, ABSENT, FAILED] \<longleftrightarrow> FAILED \<in> set [FAILED, PASSED, PASSED])
      \<and> (SKIPPED \<in> set [PASSED, ABSENT, FAILED] \<longleftrightarrow> SKIPPED \<in> set [FAILED, PASSED, PASSED])"
    by (simp add: outcome_defs)
  have b: "ABSENT \<notin> {PASSED, FAILED, SKIPPED}" by (simp add: outcome_defs)
  have r: "html_row ?m ''C'' ''t'' [] = Some (fst ?row, snd ?row)" by code_simp
  have e: "case_results (fst ?row) = [''absent'', ''passed'']" "snd ?row = ''Passed''"
    "property_order ?m = Some [''REQ1'', ''REQ2'']"
    "observed_outcomes ?m ''C'' ''t'' [''REQ1'', ''REQ2''] = [''passed'']"
    by code_simp+
  note t1 = combined_result_membership_only
    [of "[PASSED, ABSENT, FAILED]" "[FAILED, PASSED, PASSED]" TextReportMatrix ABSENT
      ?m "''C''" "''t''" "[]" "fst ?row" "snd ?row"]
  note t2 = combined_result_membership_only
    [of "[SKIPPED]" "[SKIPPED]" TextReportMatrix ABSENT
      ?m "''C''" "''t''" "[]" "fst ?row" "snd ?row"]
  have c1: "combined_result TextReportMatrix [PASSED, ABSENT, FAILED]
     = combined_result TextReportMatrix [FAILED, PASSED, PASSED]"
    using t1 a by blast
  have c2: "combined_result TextReportMatrix (ABSENT # [SKIPPED]) = combined_result TextReportMatrix [SKIPPED]"
    using t2 b by blast
  show ?thesis
    using c1 c2 r e by blast
qed

section \<open>The natural order of the axes\<close>




section \<open>The links of the HTML matrix\<close>

text \<open>
  C10. In a row of the HTML matrix, when the matrix holds at least one report, the
  step of every axis is defined, and the cell of a case with a result links to the
  page of the first key of \<open>reports\<close>, followed by \<open>.html#\<close> and the anchor of the
  case, whichever report the case came from. With no report the step raises. After
  \<open>add_report\<close> the matrix holds a report, and a later \<open>add_report\<close> leaves the first
  key in place.
\<close>

theorem html_cell_links_first_report:
  "(dict_get classname (cases m) = Some by_case \<and> dict_get casename by_case = Some by_axis
      \<and> keys (reports m) = report_name # others \<longrightarrow>
     (\<exists>st'. html_axis m classname casename axis st = Some st'
        \<and> (\<forall>tc. dict_get axis by_axis = Some tc \<and> case_outcome tc \<noteq> ABSENT \<longrightarrow>
              celltds st' = celltds st @ ''<td class='testcase-cell '' @ case_outcome tc @ '''>''
                @ ''<a class='tooltip-parent testcase-link' href='' @ [CHR 0x27]
                @ report_name @ ''.html#'' @ case_anchor tc @ '''>''
                @ short_outcome HtmlReportMatrix (case_outcome tc)
                @ ''<div class='tooltip'>('' @ title (case_outcome tc) @ '') '' @ axis
                @ ''</div></a></td>'')))
   \<and> (keys (reports m) = [] \<longrightarrow> html_axis m classname casename axis st = None)
   \<and> (\<exists>m1. add_report path parsed m0 = Some m1 \<and> keys (reports m1) \<noteq> []
        \<and> (keys (reports m0) \<noteq> [] \<longrightarrow> hd (keys (reports m1)) = hd (keys (reports m0))))"
proof (intro conjI impI)
  assume a: "dict_get classname (cases m) = Some by_case \<and> dict_get casename by_case = Some by_axis
      \<and> keys (reports m) = report_name # others"
  then have r: "dict_get classname (cases m) = Some by_case" "dict_get casename by_case = Some by_axis"
    and k: "keys (reports m) = report_name # others" by simp_all
  show "\<exists>st'. html_axis m classname casename axis st = Some st'
        \<and> (\<forall>tc. dict_get axis by_axis = Some tc \<and> case_outcome tc \<noteq> ABSENT \<longrightarrow>
              celltds st' = celltds st @ ''<td class='testcase-cell '' @ case_outcome tc @ '''>''
                @ ''<a class='tooltip-parent testcase-link' href='' @ [CHR 0x27]
                @ report_name @ ''.html#'' @ case_anchor tc @ '''>''
                @ short_outcome HtmlReportMatrix (case_outcome tc)
                @ ''<div class='tooltip'>('' @ title (case_outcome tc) @ '') '' @ axis
                @ ''</div></a></td>'')"
    unfolding html_axis_known [OF r k]
    by (cases "dict_get axis by_axis") (simp_all add: cell_link_def format_anchor_def)
next
  assume "keys (reports m) = []"
  then show "html_axis m classname casename axis st = None" by (rule html_axis_no_report)
next
  from add_report_effect [of path parsed m0] obtain m1 where
    m1: "add_report path parsed m0 = Some m1"
    "reports m1 = dict_set (os_path_basename path) parsed (reports m0)"
    by (elim exE conjE)
  have ne: "keys (reports m1) \<noteq> []"
    unfolding m1(2) keys_dict_set by (cases "keys (reports m0)") auto
  have hd: "hd (keys (reports m1)) = hd (keys (reports m0))" if "keys (reports m0) \<noteq> []"
    unfolding m1(2) keys_dict_set using that by simp
  show "\<exists>m1. add_report path parsed m0 = Some m1 \<and> keys (reports m1) \<noteq> []
        \<and> (keys (reports m0) \<noteq> [] \<longrightarrow> hd (keys (reports m1)) = hd (keys (reports m0)))"
    using m1(1) ne hd by blast
qed

theorem html_cell_links_first_report_witness:
  "\<exists>m st'.
     add_reports
       [(''a.xml'', \<lparr>junit_suites = []\<rparr>),
        (''b.xml'', \<lparr>junit_suites = [\<lparr>suite_classes = [(''C'', \<lparr>class_cases =
           [\<lparr>case_basename = ''t'', case_outcome = ''passed'', case_anchor = ''anc'',
              case_properties = [\<lparr>prop_name = ''srs'', prop_value = ''REQ1''\<rparr>]\<rparr>]\<rparr>)]\<rparr>]\<rparr>)]
       (init (Some ''REQ'') 1) = Some m
     \<and> keys (reports m) = [''a.xml'', ''b.xml'']
     \<and> html_axis m ''C'' ''t'' ''REQ1'' \<lparr>case_results = [], celltds = [], property_class = []\<rparr>
          = Some st'
     \<and> celltds st' = ''<td class='testcase-cell passed'>''
          @ ''<a class='tooltip-parent testcase-link' href='' @ [CHR 0x27] @ ''a.xml.html#anc''
          @ [CHR 0x27] @ ''>ok<div class='tooltip'>(Passed) REQ1</div></a></td>''"
proof -
  let ?rs = "[(''a.xml'', \<lparr>junit_suites = []\<rparr>),
        (''b.xml'', \<lparr>junit_suites = [\<lparr>suite_classes = [(''C'', \<lparr>class_cases =
           [\<lparr>case_basename = ''t'', case_outcome = ''passed'', case_anchor = ''anc'',
              case_properties = [\<lparr>prop_name = ''srs'', prop_value = ''REQ1''\<rparr>]\<rparr>]\<rparr>)]\<rparr>]\<rparr>)]"
  let ?m = "the (add_reports ?rs (init (Some ''REQ'') 1))"
  let ?by_case = "the (dict_get ''C'' (cases ?m))"
  let ?by_axis = "the (dict_get ''t'' ?by_case)"
  let ?tc = "the (dict_get ''REQ1'' ?by_axis)"
  let ?st = "\<lparr>case_results = [], celltds = [], property_class = []\<rparr>"
  have m: "add_reports ?rs (init (Some ''REQ'') 1) = Some ?m" by code_simp
  have h: "dict_get ''C'' (cases ?m) = Some ?by_case" "dict_get ''t'' ?by_case = Some ?by_axis"
    "keys (reports ?m) = ''a.xml'' # [''b.xml'']"
    by code_simp+
  have c: "dict_get ''REQ1'' ?by_axis = Some ?tc" "case_outcome ?tc \<noteq> ABSENT"
    "case_outcome ?tc = ''passed''" "case_anchor ?tc = ''anc''"
    "short_outcome HtmlReportMatrix ''passed'' = ''ok''" "title ''passed'' = ''Passed''"
    by code_simp+
  from html_cell_links_first_report
    [where m = ?m and classname = "''C''" and casename = "''t''" and by_case = ?by_case
      and by_axis = ?by_axis and report_name = "''a.xml''" and others = "[''b.xml'']"
      and axis = "''REQ1''" and st = ?st, THEN conjunct1] h
  obtain st' where st': "html_axis ?m ''C'' ''t'' ''REQ1'' ?st = Some st'"
    "\<forall>tc. dict_get ''REQ1'' ?by_axis = Some tc \<and> case_outcome tc \<noteq> ABSENT \<longrightarrow>
       celltds st' = celltds ?st @ ''<td class='testcase-cell '' @ case_outcome tc @ [CHR 0x27] @ ''>''
         @ ''<a class='tooltip-parent testcase-link' href='' @ [CHR 0x27]
         @ ''a.xml'' @ ''.html#'' @ case_anchor tc @ [CHR 0x27] @ ''>''
         @ short_outcome HtmlReportMatrix (case_outcome tc)
         @ ''<div class='tooltip'>('' @ title (case_outcome tc) @ '') '' @ ''REQ1''
         @ ''</div></a></td>''"
    by auto
  from st'(2) c(1,2) have "celltds st' = celltds ?st @ ''<td class='testcase-cell '' @ case_outcome ?tc @ [CHR 0x27] @ ''>''
         @ ''<a class='tooltip-parent testcase-link' href='' @ [CHR 0x27]
         @ ''a.xml'' @ ''.html#'' @ case_anchor ?tc @ [CHR 0x27] @ ''>''
         @ short_outcome HtmlReportMatrix (case_outcome ?tc)
         @ ''<div class='tooltip'>('' @ title (case_outcome ?tc) @ '') '' @ ''REQ1''
         @ ''</div></a></td>''"
    by blast
  then have "celltds st' = ''<td class='testcase-cell passed'>''
          @ ''<a class='tooltip-parent testcase-link' href='' @ [CHR 0x27] @ ''a.xml.html#anc''
          @ [CHR 0x27] @ ''>ok<div class='tooltip'>(Passed) REQ1</div></a></td>''"
    unfolding c(3,4) c(5,6) by simp
  then show ?thesis using m h(3) st'(1) by auto
qed

end
